theory Spec2Isabelle
  imports Main "HOL-Library.Word"
begin

section \<open>The LRU cache of \<^verbatim>\<open>src/cxx/lrucache/lru.hh\<close>\<close>

text \<open>
  The cache owns a pool of nodes allocated once; a node is named by its position in the
  pool.  The three intrusive containers (the stack of free nodes, the list of evictable
  nodes and the list of pinned nodes) and the hash index hold positions.  The front of a
  list is the MRU end, and the head of \<open>free_nodes\<close> is the top of the stack.

  The hash index is the list of the nodes linked in it, the last one linked first; a
  lookup returns the first node whose key is the one looked for.  The hash function and
  the buckets only decide where the real lookup searches: keys are compared for equality,
  and in a reachable state no two linked nodes hold the same key (lemma
  \<open>unique_keys_run_fresh\<close> below), so the result does not depend on the order.

  Timestamps are \<^verbatim>\<open>uint64_t\<close> and wrap around.  Sizes and counters are natural
  numbers: they are bounded by the pool size, and the constructor below only succeeds
  for capacities whose pool is far below \<open>2 ^ 64\<close>.

  Where the C++ has undefined behaviour (popping the empty stack of free nodes, stepping
  an iterator before the first list element, an empty pool), the model returns an error.
  The template parameter \<^verbatim>\<open>CanEvict\<close> is not used by the class and has no
  counterpart here.
\<close>

subsection \<open>Data\<close>

type_synonym timestamp_type = "64 word"

record ('k, 'v) node_type =
  key :: 'k
  value' :: 'v
  access_time :: timestamp_type
  promotion_time :: timestamp_type
  evictable :: bool

type_synonym node_pointer_type = nat

record ('k, 'v) lru_cache =
  max_size :: nat
  soft_promotion :: nat
  batch_evict_size :: nat
  node_pool :: "('k, 'v) node_type list"
  free_nodes :: "node_pointer_type list"
  lru :: "node_pointer_type list"
  index :: "node_pointer_type list"
  current_time :: timestamp_type
  unevicted_list :: "node_pointer_type list"
  nr_unevicted :: nat

datatype error = Bad_Capacity | Free_Pool_Empty | List_Underflow

subsection \<open>Private operations\<close>

definition allocate_node ::
  "('k, 'v) lru_cache \<Rightarrow> error + (node_pointer_type \<times> ('k, 'v) lru_cache)" where
  "allocate_node s =
     (case free_nodes s of
        [] \<Rightarrow> Inl Free_Pool_Empty
      | n # rest \<Rightarrow> Inr (n, s\<lparr>free_nodes := rest\<rparr>))"

definition free_node :: "node_pointer_type \<Rightarrow> ('k, 'v) lru_cache \<Rightarrow> ('k, 'v) lru_cache" where
  "free_node n s = s\<lparr>free_nodes := n # free_nodes s\<rparr>"

definition next_timestamp :: "('k, 'v) lru_cache \<Rightarrow> timestamp_type \<times> ('k, 'v) lru_cache" where
  "next_timestamp s = (current_time s + 1, s\<lparr>current_time := current_time s + 1\<rparr>)"

definition find_in_index :: "'k \<Rightarrow> ('k, 'v) lru_cache \<Rightarrow> node_pointer_type option" where
  "find_in_index k s = find (\<lambda>n. key (node_pool s ! n) = k) (index s)"

text \<open>\<^verbatim>\<open>htable_hook.unlink()\<close>: the node leaves the hash index.\<close>

definition htable_unlink :: "node_pointer_type \<Rightarrow> ('k, 'v) lru_cache \<Rightarrow> ('k, 'v) lru_cache" where
  "htable_unlink n s = s\<lparr>index := removeAll n (index s)\<rparr>"

text \<open>\<^verbatim>\<open>list_hook.unlink()\<close>: the node leaves the list it is linked in.\<close>

definition list_unlink :: "node_pointer_type \<Rightarrow> ('k, 'v) lru_cache \<Rightarrow> ('k, 'v) lru_cache" where
  "list_unlink n s =
     s\<lparr>lru := removeAll n (lru s), unevicted_list := removeAll n (unevicted_list s)\<rparr>"

text \<open>
  The loop of \<^verbatim>\<open>make_room_for_insert\<close>.  The first argument counts the iterations
  left, the second is the position of the iterator in \<open>lru\<close> (\<open>length (lru s)\<close> is
  \<^verbatim>\<open>end()\<close>).  Decrementing the iterator at position 0 leaves the list.
\<close>

fun evict_loop ::
  "nat \<Rightarrow> nat \<Rightarrow> ('k, 'v) lru_cache \<Rightarrow> error + (nat \<times> ('k, 'v) lru_cache)" where
  "evict_loop 0 iter s = Inr (iter, s)"
| "evict_loop (Suc i) 0 s = Inl List_Underflow"
| "evict_loop (Suc i) (Suc iter) s =
     evict_loop i iter (free_node (lru s ! iter) (htable_unlink (lru s ! iter) s))"

definition make_room_for_insert :: "('k, 'v) lru_cache \<Rightarrow> error + ('k, 'v) lru_cache" where
  "make_room_for_insert s =
     (if length (free_nodes s) + nr_unevicted s < max_size s then
        (case evict_loop (batch_evict_size s) (length (lru s)) s of
           Inl e \<Rightarrow> Inl e
         | Inr (iter, s') \<Rightarrow> Inr (s'\<lparr>lru := take iter (lru s')\<rparr>))
      else Inr s)"

definition insert_check ::
  "'k \<Rightarrow> ('k, 'v) lru_cache \<Rightarrow> error + (node_pointer_type option \<times> ('k, 'v) lru_cache)" where
  "insert_check k s =
     (case make_room_for_insert s of
        Inl e \<Rightarrow> Inl e
      | Inr s' \<Rightarrow> Inr (find_in_index k s', s'))"

definition lru_touch :: "node_pointer_type \<Rightarrow> ('k, 'v) lru_cache \<Rightarrow> ('k, 'v) lru_cache" where
  "lru_touch n s =
     (let (t, s1) = next_timestamp s;
          node = node_pool s1 ! n;
          s2 = s1\<lparr>node_pool := (node_pool s1)[n := node\<lparr>access_time := t\<rparr>]\<rparr>
      in if soft_promotion s2 < unat (t - promotion_time node) \<and> evictable node then
           let s3 = list_unlink n s2;
               s4 = s3\<lparr>lru := n # lru s3\<rparr>
           in s4\<lparr>node_pool := (node_pool s4)[n := (node_pool s4 ! n)\<lparr>promotion_time := t\<rparr>]\<rparr>
         else s2)"

definition do_insert ::
  "'k \<Rightarrow> 'v \<Rightarrow> bool \<Rightarrow> ('k, 'v) lru_cache \<Rightarrow> error + ('k, 'v) lru_cache" where
  "do_insert k v e s =
     (case allocate_node s of
        Inl err \<Rightarrow> Inl err
      | Inr (n, s1) \<Rightarrow>
          let (t, s2) = next_timestamp s1;
              new_node = \<lparr>key = k, value' = v, access_time = t, promotion_time = t,
                          evictable = e\<rparr>;
              s3 = s2\<lparr>node_pool := (node_pool s2)[n := new_node], index := n # index s2\<rparr>
          in Inr (if e then s3\<lparr>lru := n # lru s3\<rparr>
                  else s3\<lparr>unevicted_list := n # unevicted_list s3\<rparr>))"

subsection \<open>Constructor and public operations\<close>

text \<open>
  The constructor's loop pushes the pool's nodes from the last one down to the first:
  \<open>push_pool p st\<close> pushes the nodes below position \<open>p\<close> onto the stack \<open>st\<close>.
\<close>

fun push_pool :: "nat \<Rightarrow> node_pointer_type list \<Rightarrow> node_pointer_type list" where
  "push_pool 0 st = st"
| "push_pool (Suc p) st = push_pool p (p # st)"

text \<open>
  \<open>dk\<close> and \<open>dv\<close> are the value-initialised key and value of the pool's nodes.
  \<^verbatim>\<open>capacity * 0.5\<close> is computed in double precision and truncated; it is
  \<open>c div 2\<close> for every capacity below \<open>2 ^ 53\<close>, and no pool of a larger capacity can be
  allocated.  With capacity 0 the constructor takes the last element of an empty pool.
\<close>

definition lru_cache :: "nat \<Rightarrow> 'k \<Rightarrow> 'v \<Rightarrow> error + ('k, 'v) lru_cache" where
  "lru_cache c dk dv =
     (if c = 0 \<or> 2 ^ 53 \<le> c then Inl Bad_Capacity
      else Inr \<lparr>max_size = c,
                soft_promotion = c div 2,
                batch_evict_size = min 3 (c - c div 2),
                node_pool = replicate (c * 2)
                  \<lparr>key = dk, value' = dv, access_time = 0, promotion_time = 0,
                   evictable = False\<rparr>,
                free_nodes = push_pool (c * 2) [],
                lru = [],
                index = [],
                current_time = 0,
                unevicted_list = [],
                nr_unevicted = 0\<rparr>)"

definition get :: "'k \<Rightarrow> ('k, 'v) lru_cache \<Rightarrow> 'v option \<times> ('k, 'v) lru_cache" where
  "get k s =
     (case find_in_index k s of
        Some n \<Rightarrow> let s' = lru_touch n s in (Some (value' (node_pool s' ! n)), s')
      | None \<Rightarrow> (None, s))"

definition insert_on_missing ::
  "'k \<Rightarrow> 'v \<Rightarrow> ('k, 'v) lru_cache \<Rightarrow> error + ('k, 'v) lru_cache" where
  "insert_on_missing k v s =
     (case insert_check k s of
        Inl e \<Rightarrow> Inl e
      | Inr (None, s1) \<Rightarrow> do_insert k v True s1
      | Inr (Some n, s1) \<Rightarrow> Inr s1)"

definition insert_lru ::
  "'k \<Rightarrow> 'v \<Rightarrow> bool \<Rightarrow> ('k, 'v) lru_cache \<Rightarrow> error + ('k, 'v) lru_cache" where
  "insert_lru k v e s =
     (case insert_check k s of
        Inl err \<Rightarrow> Inl err
      | Inr (Some n, s1) \<Rightarrow>
          Inr (lru_touch n
                 (s1\<lparr>node_pool := (node_pool s1)[n := (node_pool s1 ! n)\<lparr>value' := v\<rparr>]\<rparr>))
      | Inr (None, s1) \<Rightarrow>
          (case do_insert k v e s1 of
             Inl err \<Rightarrow> Inl err
           | Inr s2 \<Rightarrow>
               Inr (if \<not> e then s2\<lparr>nr_unevicted := nr_unevicted s2 + 1\<rparr> else s2)))"

subsection \<open>Sequences of public operations\<close>

datatype ('k, 'v) op = Get 'k | Insert 'k 'v bool | Insert_On_Missing 'k 'v

fun step :: "('k, 'v) op \<Rightarrow> ('k, 'v) lru_cache \<Rightarrow> error + ('k, 'v) lru_cache" where
  "step (Get k) s = Inr (snd (get k s))"
| "step (Insert k v e) s = insert_lru k v e s"
| "step (Insert_On_Missing k v) s = insert_on_missing k v s"

fun run :: "('k, 'v) op list \<Rightarrow> ('k, 'v) lru_cache \<Rightarrow> error + ('k, 'v) lru_cache" where
  "run [] s = Inr s"
| "run (x # xs) s = (case step x s of Inl e \<Rightarrow> Inl e | Inr s' \<Rightarrow> run xs s')"

text \<open>The state after constructing a cache of capacity \<open>c\<close> and running \<open>ops\<close> on it.\<close>

definition run_fresh ::
  "nat \<Rightarrow> 'k \<Rightarrow> 'v \<Rightarrow> ('k, 'v) op list \<Rightarrow> error + ('k, 'v) lru_cache" where
  "run_fresh c dk dv ops =
     (case lru_cache c dk dv of Inl e \<Rightarrow> Inl e | Inr s \<Rightarrow> run ops s)"

subsection \<open>Derived notions\<close>

text \<open>
  The well-formedness of a cache state: the configuration constants are those the
  constructor computes, every pool node is in exactly one of the free stack, the pinned
  list and the evictable list, the pinned counter is the length of the pinned list, the
  index holds exactly the nodes of the two lists, and the list a node is in agrees with
  its \<open>evictable\<close> flag.
\<close>

definition wf :: "('k, 'v) lru_cache \<Rightarrow> bool" where
  "wf s \<longleftrightarrow>
     0 < max_size s \<and>
     soft_promotion s = max_size s div 2 \<and>
     batch_evict_size s = min 3 (max_size s - soft_promotion s) \<and>
     length (node_pool s) = 2 * max_size s \<and>
     distinct (free_nodes s @ unevicted_list s @ lru s) \<and>
     set (free_nodes s @ unevicted_list s @ lru s) = {..<2 * max_size s} \<and>
     nr_unevicted s = length (unevicted_list s) \<and>
     distinct (index s) \<and>
     set (index s) = set (unevicted_list s) \<union> set (lru s) \<and>
     list_all (\<lambda>n. evictable (node_pool s ! n)) (lru s) \<and>
     list_all (\<lambda>n. \<not> evictable (node_pool s ! n)) (unevicted_list s)"

text \<open>
  The state after one batch eviction: the last \<open>batch_evict_size\<close> nodes of \<open>lru\<close>
  leave the list and the index and are pushed on the free stack, the last node first.
\<close>

definition evicted :: "('k, 'v) lru_cache \<Rightarrow> ('k, 'v) lru_cache" where
  "evicted s =
     (let keep = length (lru s) - batch_evict_size s;
          victims = drop keep (lru s)
      in s\<lparr>free_nodes := victims @ free_nodes s,
           index := filter (\<lambda>n. n \<notin> set victims) (index s),
           lru := take keep (lru s)\<rparr>)"

text \<open>The condition under which \<open>lru_touch\<close> moves the node to the MRU end.\<close>

definition promotes :: "node_pointer_type \<Rightarrow> ('k, 'v) lru_cache \<Rightarrow> bool" where
  "promotes n s \<longleftrightarrow>
     soft_promotion s < unat (current_time s + 1 - promotion_time (node_pool s ! n)) \<and>
     evictable (node_pool s ! n)"

text \<open>The result of \<open>get k\<close> after constructing a cache and running \<open>ops\<close> on it.\<close>

definition lookup_after ::
  "nat \<Rightarrow> 'k \<Rightarrow> 'v \<Rightarrow> ('k, 'v) op list \<Rightarrow> 'k \<Rightarrow> error + 'v option" where
  "lookup_after c dk dv ops k =
     (case run_fresh c dk dv ops of Inl e \<Rightarrow> Inl e | Inr s \<Rightarrow> Inr (fst (get k s)))"

text \<open>
  The ordering of the timestamps of the live nodes (those on either list) with respect
  to the clock.
\<close>

definition timestamps_ordered :: "('k, 'v) lru_cache \<Rightarrow> bool" where
  "timestamps_ordered s \<longleftrightarrow>
     list_all (\<lambda>n. promotion_time (node_pool s ! n) \<le> access_time (node_pool s ! n) \<and>
                    access_time (node_pool s ! n) \<le> current_time s)
       (lru s @ unevicted_list s)"

text \<open>
  Example state: the cache of capacity 1 (threshold 0, batch size 1) after inserting the
  evictable keys 1 and 2.  The evictable list holds two nodes, so the next eviction check
  fires.
\<close>

definition two_evictable :: "(64 word, 64 word) lru_cache" where
  "two_evictable =
     \<lparr>max_size = 1, soft_promotion = 0, batch_evict_size = 1,
      node_pool =
        [\<lparr>key = 1, value' = 11, access_time = 1, promotion_time = 1, evictable = True\<rparr>,
         \<lparr>key = 2, value' = 12, access_time = 2, promotion_time = 2, evictable = True\<rparr>],
      free_nodes = [], lru = [1, 0], index = [1, 0], current_time = 2,
      unevicted_list = [], nr_unevicted = 0\<rparr>"

text \<open>
  The effect of a touch of node \<open>n\<close> as the specification words it: the clock is
  incremented and becomes the node's access time; the node is relinked at the MRU end,
  and its promotion time set to the access time, exactly when it is evictable and the
  access time exceeds the promotion time by more than the threshold.
\<close>

definition touch_spec ::
  "node_pointer_type \<Rightarrow> ('k, 'v) lru_cache \<Rightarrow> ('k, 'v) lru_cache \<Rightarrow> bool" where
  "touch_spec n s s' \<longleftrightarrow>
     current_time s' = current_time s + 1 \<and>
     access_time (node_pool s' ! n) = current_time s + 1 \<and>
     (if evictable (node_pool s ! n) \<and>
         soft_promotion s < unat (current_time s + 1 - promotion_time (node_pool s ! n))
      then lru s' = n # removeAll n (lru s) \<and>
           promotion_time (node_pool s' ! n) = current_time s + 1
      else lru s' = lru s \<and>
           promotion_time (node_pool s' ! n) = promotion_time (node_pool s ! n)) \<and>
     unevicted_list s' = unevicted_list s \<and>
     evictable (node_pool s' ! n) = evictable (node_pool s ! n)"

text \<open>The key is resident and its node is on the pinned list.\<close>

definition on_pinned_list :: "'k \<Rightarrow> ('k, 'v) lru_cache \<Rightarrow> bool" where
  "on_pinned_list k s =
     (case find_in_index k s of None \<Rightarrow> False | Some n \<Rightarrow> n \<in> set (unevicted_list s))"

text \<open>
  Example state: the cache of capacity 4 (threshold 2, batch size 2) after
  \<open>insert(1, "a", false)\<close>.
\<close>

definition pinned_a :: "(64 word, string) lru_cache" where
  "pinned_a =
     \<lparr>max_size = 4, soft_promotion = 2, batch_evict_size = 2,
      node_pool =
        \<lparr>key = 1, value' = ''a'', access_time = 1, promotion_time = 1, evictable = False\<rparr>
        # replicate 7 \<lparr>key = 0, value' = [], access_time = 0, promotion_time = 0,
                          evictable = False\<rparr>,
      free_nodes = [1, 2, 3, 4, 5, 6, 7], lru = [], index = [0], current_time = 1,
      unevicted_list = [0], nr_unevicted = 1\<rparr>"

text \<open>The keys of the nodes linked in the index.\<close>

definition resident_keys :: "('k, 'v) lru_cache \<Rightarrow> 'k set" where
  "resident_keys s = (\<lambda>n. key (node_pool s ! n)) ` set (index s)"

text \<open>Inserting a list of key-value pairs in order, all with the same flag.\<close>

fun insert_all :: "bool \<Rightarrow> ('k \<times> 'v) list \<Rightarrow> ('k, 'v) op list" where
  "insert_all e [] = []"
| "insert_all e ((k, v) # kvs) = Insert k v e # insert_all e kvs"

text \<open>The live nodes: those on either list.\<close>

definition live :: "('k, 'v) lru_cache \<Rightarrow> node_pointer_type set" where
  "live s = set (lru s) \<union> set (unevicted_list s)"

text \<open>
  What one operation may do to the timestamps: the clock stays or is incremented once,
  and a live node either keeps its timestamps or receives the incremented clock as its
  access time, with its promotion time unchanged or set to the same value.
\<close>

definition stamps :: "('k, 'v) lru_cache \<Rightarrow> ('k, 'v) lru_cache \<Rightarrow> bool" where
  "stamps s s' \<longleftrightarrow>
     (current_time s' = current_time s \<or> current_time s' = current_time s + 1) \<and>
     (\<forall>n\<in>live s'.
        (n \<in> live s \<and>
         access_time (node_pool s' ! n) = access_time (node_pool s ! n) \<and>
         promotion_time (node_pool s' ! n) = promotion_time (node_pool s ! n)) \<or>
        (current_time s' = current_time s + 1 \<and>
         access_time (node_pool s' ! n) = current_time s + 1 \<and>
         (promotion_time (node_pool s' ! n) = current_time s + 1 \<or>
          n \<in> live s \<and>
          promotion_time (node_pool s' ! n) = promotion_time (node_pool s ! n))))"

text \<open>
  Example state: the cache of capacity 1 holding the pinned key 0, inserted at time 1,
  with the clock and the node's access time at \<open>t\<close>.
\<close>

definition pinned_clock :: "timestamp_type \<Rightarrow> (64 word, 64 word) lru_cache" where
  "pinned_clock t =
     \<lparr>max_size = 1, soft_promotion = 0, batch_evict_size = 1,
      node_pool =
        [\<lparr>key = 0, value' = 7, access_time = t, promotion_time = 1, evictable = False\<rparr>,
         \<lparr>key = 0, value' = 0, access_time = 0, promotion_time = 0, evictable = False\<rparr>],
      free_nodes = [1], lru = [], index = [0], current_time = t,
      unevicted_list = [0], nr_unevicted = 1\<rparr>"

text \<open>No two nodes of the index hold the same key.\<close>

definition unique_keys :: "('k, 'v) lru_cache \<Rightarrow> bool" where
  "unique_keys s \<longleftrightarrow> distinct (map (\<lambda>n. key (node_pool s ! n)) (index s))"

section \<open>Basic facts\<close>

subsection \<open>Constructor and eviction loop\<close>

lemma push_pool_upt: "push_pool n st = [0..<n] @ st"
  by (induction n arbitrary: st) simp_all

lemma wf_fresh: "lru_cache c dk dv = Inr s \<Longrightarrow> wf s"
  by (auto simp: lru_cache_def wf_def push_pool_upt split: if_splits)

lemma lru_free_node [simp]: "lru (free_node n s) = lru s"
  by (simp add: free_node_def)

lemma lru_htable_unlink [simp]: "lru (htable_unlink n s) = lru s"
  by (simp add: htable_unlink_def)

lemma evict_loop_underflow:
  "iter < i \<Longrightarrow> evict_loop i iter s = Inl List_Underflow"
proof (induction i iter s rule: evict_loop.induct)
  case (1 iter s)
  then show ?case by simp
next
  case (2 i s)
  then show ?case by simp
next
  case (3 i iter s)
  then show ?case by simp
qed

lemma drop_take_Suc:
  "i \<le> iter \<Longrightarrow> iter < length xs \<Longrightarrow>
   drop (iter - i) (take (Suc iter) xs) = drop (iter - i) (take iter xs) @ [xs ! iter]"
  by (simp add: take_Suc_conv_app_nth)

lemma filter_removeAll_conj:
  "filter P (removeAll a xs) = filter (\<lambda>x. x \<noteq> a \<and> P x) xs"
  by (induction xs) auto

lemma evict_loop_eq:
  "i \<le> iter \<Longrightarrow> iter \<le> length (lru s) \<Longrightarrow>
   evict_loop i iter s =
     Inr (iter - i,
          s\<lparr>free_nodes := drop (iter - i) (take iter (lru s)) @ free_nodes s,
            index := filter (\<lambda>n. n \<notin> set (drop (iter - i) (take iter (lru s)))) (index s)\<rparr>)"
proof (induction i iter s rule: evict_loop.induct)
  case (1 iter s)
  then show ?case by simp
next
  case (2 i s)
  then show ?case by simp
next
  case (3 i iter s)
  let ?n = "lru s ! iter"
  let ?s1 = "free_node ?n (htable_unlink ?n s)"
  from 3 have le: "i \<le> iter" and lt: "iter < length (lru s)" by simp_all
  have "evict_loop (Suc i) (Suc iter) s = evict_loop i iter ?s1" by simp
  also have "\<dots> = Inr (iter - i,
       ?s1\<lparr>free_nodes := drop (iter - i) (take iter (lru ?s1)) @ free_nodes ?s1,
           index := filter (\<lambda>n. n \<notin> set (drop (iter - i) (take iter (lru ?s1)))) (index ?s1)\<rparr>)"
    using le lt by (intro "3.IH") simp_all
  also have "\<dots> = Inr (Suc iter - Suc i,
       s\<lparr>free_nodes := drop (Suc iter - Suc i) (take (Suc iter) (lru s)) @ free_nodes s,
         index := filter (\<lambda>n. n \<notin> set (drop (Suc iter - Suc i) (take (Suc iter) (lru s)))) (index s)\<rparr>)"
    using le lt
    by (simp add: drop_take_Suc free_node_def htable_unlink_def filter_removeAll_conj)
  finally show ?case .
qed

lemma wf_total:
  assumes "wf s"
  shows "length (free_nodes s) + length (unevicted_list s) + length (lru s) = 2 * max_size s"
proof -
  from assms have d: "distinct (free_nodes s @ unevicted_list s @ lru s)"
    and e: "set (free_nodes s @ unevicted_list s @ lru s) = {..<2 * max_size s}"
    by (simp_all add: wf_def)
  have "length (free_nodes s @ unevicted_list s @ lru s)
        = card (set (free_nodes s @ unevicted_list s @ lru s))"
    using d by (rule distinct_card [symmetric])
  also have "\<dots> = 2 * max_size s" by (simp only: e card_lessThan)
  finally show ?thesis by simp
qed

lemma wf_trigger_iff:
  assumes "wf s"
  shows "(length (free_nodes s) + nr_unevicted s < max_size s) = (max_size s < length (lru s))"
proof -
  from assms have "nr_unevicted s = length (unevicted_list s)" by (simp add: wf_def)
  with wf_total [OF assms] show ?thesis by arith
qed

lemma wf_batch:
  assumes "wf s"
  shows "0 < batch_evict_size s" and "batch_evict_size s \<le> max_size s"
  using assms by (auto simp: wf_def)

lemma make_room_evicts:
  assumes "length (free_nodes s) + nr_unevicted s < max_size s"
    and "batch_evict_size s \<le> length (lru s)"
  shows "make_room_for_insert s = Inr (evicted s)"
  using assms by (simp add: make_room_for_insert_def evict_loop_eq evicted_def Let_def)

lemma make_room_underflow:
  assumes "length (free_nodes s) + nr_unevicted s < max_size s"
    and "length (lru s) < batch_evict_size s"
  shows "make_room_for_insert s = Inl List_Underflow"
  using assms by (simp add: make_room_for_insert_def evict_loop_underflow)

lemma make_room_idle:
  assumes "\<not> length (free_nodes s) + nr_unevicted s < max_size s"
  shows "make_room_for_insert s = Inr s"
  using assms by (simp add: make_room_for_insert_def)

lemma wf_make_room_eq:
  assumes "wf s"
  shows "make_room_for_insert s =
           Inr (if length (free_nodes s) + nr_unevicted s < max_size s then evicted s else s)"
proof (cases "length (free_nodes s) + nr_unevicted s < max_size s")
  case True
  with wf_trigger_iff [OF assms] wf_batch(2) [OF assms]
  have "batch_evict_size s \<le> length (lru s)" by simp
  with True show ?thesis by (simp add: make_room_evicts)
next
  case False
  then show ?thesis by (simp add: make_room_idle)
qed

lemma wf_evicted:
  assumes "wf s"
  shows "wf (evicted s)"
proof -
  define xs where "xs = take (length (lru s) - batch_evict_size s) (lru s)"
  define ys where "ys = drop (length (lru s) - batch_evict_size s) (lru s)"
  have l: "lru s = xs @ ys" by (simp add: xs_def ys_def)
  from assms have d: "distinct (free_nodes s @ unevicted_list s @ xs @ ys)"
    and e: "set (free_nodes s @ unevicted_list s @ xs @ ys) = {..<2 * max_size s}"
    and i: "set (index s) = set (unevicted_list s) \<union> set (xs @ ys)"
    and ev: "list_all (\<lambda>n. evictable (node_pool s ! n)) (xs @ ys)"
    by (simp_all add: wf_def l)
  have d': "distinct ((ys @ free_nodes s) @ unevicted_list s @ xs)"
    using d by auto
  have e': "set ((ys @ free_nodes s) @ unevicted_list s @ xs) = {..<2 * max_size s}"
    using e by auto
  have i': "set (filter (\<lambda>n. n \<notin> set ys) (index s)) = set (unevicted_list s) \<union> set xs"
    using i d by auto
  have ev': "list_all (\<lambda>n. evictable (node_pool s ! n)) xs"
    using ev by simp
  have "evicted s = s\<lparr>free_nodes := ys @ free_nodes s,
                       index := filter (\<lambda>n. n \<notin> set ys) (index s), lru := xs\<rparr>"
    by (simp add: evicted_def Let_def xs_def ys_def)
  then show ?thesis
    using assms d' e' i' ev' by (simp add: wf_def)
qed

lemma wf_make_room:
  "wf s \<Longrightarrow> make_room_for_insert s = Inr s' \<Longrightarrow> wf s'"
  by (auto simp: wf_make_room_eq wf_evicted split: if_splits)

lemma nth_update_field:
  assumes "\<And>x. g (f x) = g x"
  shows "g (xs[n := f (xs ! n)] ! m) = g (xs ! m)"
  using assms by (cases "n < length xs") (simp_all add: nth_list_update list_update_beyond)

lemma update_twice:
  "xs[n := f (xs ! n), n := g (xs[n := f (xs ! n)] ! n)] = xs[n := g (f (xs ! n))]"
  by (cases "n < length xs") (simp_all add: list_update_beyond)

lemma evictable_access_update [simp]:
  "evictable (xs[n := (xs ! n)\<lparr>access_time := t\<rparr>] ! m) = evictable (xs ! m)"
  by (rule nth_update_field [where f = "\<lambda>x. x\<lparr>access_time := t\<rparr>"]) simp

lemma evictable_promotion_update [simp]:
  "evictable (xs[n := (xs ! n)\<lparr>promotion_time := t\<rparr>] ! m) = evictable (xs ! m)"
  by (rule nth_update_field [where f = "\<lambda>x. x\<lparr>promotion_time := t\<rparr>"]) simp

lemma evictable_value_update [simp]:
  "evictable (xs[n := (xs ! n)\<lparr>value' := v\<rparr>] ! m) = evictable (xs ! m)"
  by (rule nth_update_field [where f = "\<lambda>x. x\<lparr>value' := v\<rparr>"]) simp

lemma evictable_touch_update [simp]:
  "evictable (xs[n := (xs ! n)\<lparr>access_time := t, promotion_time := t'\<rparr>] ! m) = evictable (xs ! m)"
  by (rule nth_update_field [where f = "\<lambda>x. x\<lparr>access_time := t, promotion_time := t'\<rparr>"]) simp

lemma key_touch_update [simp]:
  "key (xs[n := (xs ! n)\<lparr>access_time := t, promotion_time := t'\<rparr>] ! m) = key (xs ! m)"
  by (rule nth_update_field [where f = "\<lambda>x. x\<lparr>access_time := t, promotion_time := t'\<rparr>"]) simp

lemma key_access_update [simp]:
  "key (xs[n := (xs ! n)\<lparr>access_time := t\<rparr>] ! m) = key (xs ! m)"
  by (rule nth_update_field [where f = "\<lambda>x. x\<lparr>access_time := t\<rparr>"]) simp

lemma key_promotion_update [simp]:
  "key (xs[n := (xs ! n)\<lparr>promotion_time := t\<rparr>] ! m) = key (xs ! m)"
  by (rule nth_update_field [where f = "\<lambda>x. x\<lparr>promotion_time := t\<rparr>"]) simp

lemma key_value_update [simp]:
  "key (xs[n := (xs ! n)\<lparr>value' := v\<rparr>] ! m) = key (xs ! m)"
  by (rule nth_update_field [where f = "\<lambda>x. x\<lparr>value' := v\<rparr>"]) simp

lemma lru_touch_promotes:
  assumes "promotes n s"
  shows "lru_touch n s =
    s\<lparr>current_time := current_time s + 1,
      lru := n # removeAll n (lru s),
      unevicted_list := removeAll n (unevicted_list s),
      node_pool := (node_pool s)
        [n := (node_pool s ! n)\<lparr>access_time := current_time s + 1,
                                promotion_time := current_time s + 1\<rparr>]\<rparr>"
proof -
  let ?t = "current_time s + 1"
  have "(node_pool s)[n := (node_pool s ! n)\<lparr>access_time := ?t\<rparr>,
          n := ((node_pool s)[n := (node_pool s ! n)\<lparr>access_time := ?t\<rparr>] ! n)
                 \<lparr>promotion_time := ?t\<rparr>]
        = (node_pool s)[n := (node_pool s ! n)\<lparr>access_time := ?t, promotion_time := ?t\<rparr>]"
    by (rule update_twice [where f = "\<lambda>x. x\<lparr>access_time := ?t\<rparr>"
          and g = "\<lambda>x. x\<lparr>promotion_time := ?t\<rparr>"])
  with assms show ?thesis
    by (simp add: lru_touch_def promotes_def next_timestamp_def list_unlink_def Let_def
        del: list_update_overwrite)
qed

lemma lru_touch_stays:
  assumes "\<not> promotes n s"
  shows "lru_touch n s =
    s\<lparr>current_time := current_time s + 1,
      node_pool := (node_pool s)[n := (node_pool s ! n)\<lparr>access_time := current_time s + 1\<rparr>]\<rparr>"
  using assms
  by (auto simp add: lru_touch_def promotes_def next_timestamp_def list_unlink_def Let_def)

lemma wf_pinned_not_evictable:
  "wf s \<Longrightarrow> n \<in> set (unevicted_list s) \<Longrightarrow> \<not> evictable (node_pool s ! n)"
  by (simp add: wf_def list_all_iff)

lemma wf_lru_evictable:
  "wf s \<Longrightarrow> n \<in> set (lru s) \<Longrightarrow> evictable (node_pool s ! n)"
  by (simp add: wf_def list_all_iff)

lemma wf_index_live:
  "wf s \<Longrightarrow> set (index s) = set (unevicted_list s) \<union> set (lru s)"
  by (simp add: wf_def)

lemma wf_lru_touch:
  assumes "wf s" and "n \<in> set (index s)"
  shows "wf (lru_touch n s)"
proof (cases "promotes n s")
  case True
  then have ev: "evictable (node_pool s ! n)" by (simp add: promotes_def)
  with assms wf_pinned_not_evictable [OF assms(1), of n]
  have nu: "n \<notin> set (unevicted_list s)" and nl: "n \<in> set (lru s)"
    by (auto simp: wf_index_live)
  from assms(1) have d: "distinct (free_nodes s @ unevicted_list s @ lru s)"
    and e: "set (free_nodes s @ unevicted_list s @ lru s) = {..<2 * max_size s}"
    and i: "set (index s) = set (unevicted_list s) \<union> set (lru s)"
    by (simp_all add: wf_def)
  have d': "distinct (free_nodes s @ unevicted_list s @ n # removeAll n (lru s))"
    using d nl by (auto simp: distinct_removeAll)
  have e': "set (free_nodes s @ unevicted_list s @ n # removeAll n (lru s)) = {..<2 * max_size s}"
    using e nl by auto
  have i': "set (index s) = set (unevicted_list s) \<union> set (n # removeAll n (lru s))"
    using i nl by auto
  show ?thesis
    using assms(1) d' e' i' nu ev
    by (simp add: lru_touch_promotes [OF True] wf_def list_all_iff)
next
  case False
  with assms(1) show ?thesis
    by (simp add: lru_touch_stays wf_def)
qed

lemma wf_value_update:
  assumes "wf s"
  shows "wf (s\<lparr>node_pool := (node_pool s)[n := (node_pool s ! n)\<lparr>value' := v\<rparr>]\<rparr>)"
  using assms by (simp add: wf_def)

lemma find_in_index_mem:
  "find_in_index k s = Some n \<Longrightarrow> n \<in> set (index s) \<and> key (node_pool s ! n) = k"
  by (auto simp: find_in_index_def find_Some_iff)

lemma wf_node_bound:
  assumes "wf s" and "n \<in> set (index s)"
  shows "n < length (node_pool s)"
proof -
  from assms(1) have "set (free_nodes s @ unevicted_list s @ lru s) = {..<length (node_pool s)}"
    by (simp add: wf_def)
  with assms show ?thesis by (auto simp: wf_index_live)
qed

lemma do_insert_eq:
  "do_insert k v e s =
     (case free_nodes s of
        [] \<Rightarrow> Inl Free_Pool_Empty
      | n # rest \<Rightarrow>
          Inr (s\<lparr>free_nodes := rest,
                 current_time := current_time s + 1,
                 node_pool := (node_pool s)
                   [n := \<lparr>key = k, value' = v, access_time = current_time s + 1,
                          promotion_time = current_time s + 1, evictable = e\<rparr>],
                 index := n # index s,
                 lru := (if e then n # lru s else lru s),
                 unevicted_list := (if e then unevicted_list s else n # unevicted_list s)\<rparr>))"
  by (simp add: do_insert_def allocate_node_def next_timestamp_def Let_def split: list.splits)

lemma wf_do_insert:
  assumes "wf s" and "do_insert k v e s = Inr s'"
  shows "wf (if e then s' else s'\<lparr>nr_unevicted := nr_unevicted s' + 1\<rparr>)"
proof (cases "free_nodes s")
  case Nil
  with assms(2) show ?thesis by (simp add: do_insert_eq)
next
  case (Cons n rest)
  from assms(1) Cons have d: "distinct ((n # rest) @ unevicted_list s @ lru s)"
    and e: "set ((n # rest) @ unevicted_list s @ lru s) = {..<2 * max_size s}"
    and i: "set (index s) = set (unevicted_list s) \<union> set (lru s)"
    and di: "distinct (index s)"
    and el: "\<forall>m\<in>set (lru s). evictable (node_pool s ! m)"
    and eu: "\<forall>m\<in>set (unevicted_list s). \<not> evictable (node_pool s ! m)"
    and len: "length (node_pool s) = 2 * max_size s"
    by (simp_all add: wf_def list_all_iff)
  have fresh: "n \<notin> set (unevicted_list s)" "n \<notin> set (lru s)" "n \<notin> set rest"
    using d by auto
  have nlt: "n < length (node_pool s)"
    using e len by auto
  have s': "s' = s\<lparr>free_nodes := rest,
                 current_time := current_time s + 1,
                 node_pool := (node_pool s)
                   [n := \<lparr>key = k, value' = v, access_time = current_time s + 1,
                          promotion_time = current_time s + 1, evictable = e\<rparr>],
                 index := n # index s,
                 lru := (if e then n # lru s else lru s),
                 unevicted_list := (if e then unevicted_list s else n # unevicted_list s)\<rparr>"
    using assms(2) Cons by (simp add: do_insert_eq)
  show ?thesis
  proof (cases e)
    case True
    have d': "distinct (rest @ unevicted_list s @ n # lru s)" using d by auto
    have e': "set (rest @ unevicted_list s @ n # lru s) = {..<2 * max_size s}"
      using e by auto
    have i': "set (n # index s) = set (unevicted_list s) \<union> set (n # lru s)"
      using i by auto
    show ?thesis
      using assms(1) True d' e' i' fresh nlt el eu di
      by (auto simp add: s' wf_def list_all_iff nth_list_update)
  next
    case False
    have d': "distinct (rest @ (n # unevicted_list s) @ lru s)" using d by auto
    have e': "set (rest @ (n # unevicted_list s) @ lru s) = {..<2 * max_size s}"
      using e by auto
    have i': "set (n # index s) = set (n # unevicted_list s) \<union> set (lru s)"
      using i by auto
    show ?thesis
      using assms(1) False d' e' i' fresh nlt el eu di
      by (auto simp add: s' wf_def list_all_iff nth_list_update)
  qed
qed

lemma insert_lru_eq:
  "insert_lru k v e s =
     (case make_room_for_insert s of
        Inl err \<Rightarrow> Inl err
      | Inr s1 \<Rightarrow>
          (case find_in_index k s1 of
             Some n \<Rightarrow>
               Inr (lru_touch n
                 (s1\<lparr>node_pool := (node_pool s1)[n := (node_pool s1 ! n)\<lparr>value' := v\<rparr>]\<rparr>))
           | None \<Rightarrow>
               (case do_insert k v e s1 of
                  Inl err \<Rightarrow> Inl err
                | Inr s2 \<Rightarrow>
                    Inr (if e then s2 else s2\<lparr>nr_unevicted := nr_unevicted s2 + 1\<rparr>))))"
  by (cases e) (simp_all add: insert_lru_def insert_check_def split: sum.splits option.splits)

lemma insert_on_missing_eq:
  "insert_on_missing k v s =
     (case make_room_for_insert s of
        Inl err \<Rightarrow> Inl err
      | Inr s1 \<Rightarrow>
          (case find_in_index k s1 of
             Some n \<Rightarrow> Inr s1
           | None \<Rightarrow> do_insert k v True s1))"
  by (simp add: insert_on_missing_def insert_check_def split: sum.splits option.splits)

lemma wf_insert_lru:
  assumes "wf s" and "insert_lru k v e s = Inr s'"
  shows "wf s'"
proof -
  from assms(2) obtain s1 where mr: "make_room_for_insert s = Inr s1"
    by (auto simp: insert_lru_eq split: sum.splits)
  have w1: "wf s1" using assms(1) mr by (rule wf_make_room)
  show ?thesis
  proof (cases "find_in_index k s1")
    case None
    with assms(2) mr obtain s2 where di: "do_insert k v e s1 = Inr s2"
      and s': "s' = (if e then s2 else s2\<lparr>nr_unevicted := nr_unevicted s2 + 1\<rparr>)"
      by (auto simp: insert_lru_eq split: sum.splits)
    from wf_do_insert [OF w1 di] s' show ?thesis by simp
  next
    case (Some n)
    let ?s2 = "s1\<lparr>node_pool := (node_pool s1)[n := (node_pool s1 ! n)\<lparr>value' := v\<rparr>]\<rparr>"
    from Some have "n \<in> set (index s1)" by (simp add: find_in_index_mem)
    then have "n \<in> set (index ?s2)" by simp
    with wf_value_update [OF w1] have "wf (lru_touch n ?s2)" by (rule wf_lru_touch)
    with assms(2) mr Some show ?thesis by (simp add: insert_lru_eq)
  qed
qed

lemma wf_insert_on_missing:
  assumes "wf s" and "insert_on_missing k v s = Inr s'"
  shows "wf s'"
proof -
  from assms(2) obtain s1 where mr: "make_room_for_insert s = Inr s1"
    by (auto simp: insert_on_missing_eq split: sum.splits)
  have w1: "wf s1" using assms(1) mr by (rule wf_make_room)
  show ?thesis
  proof (cases "find_in_index k s1")
    case None
    with assms(2) mr have "do_insert k v True s1 = Inr s'"
      by (simp add: insert_on_missing_eq)
    from wf_do_insert [OF w1 this] show ?thesis by simp
  next
    case (Some n)
    with assms(2) mr w1 show ?thesis by (simp add: insert_on_missing_eq)
  qed
qed

lemma wf_get:
  assumes "wf s"
  shows "wf (snd (get k s))"
proof (cases "find_in_index k s")
  case None
  with assms show ?thesis by (simp add: get_def)
next
  case (Some n)
  then have "n \<in> set (index s)" by (simp add: find_in_index_mem)
  with assms have "wf (lru_touch n s)" by (rule wf_lru_touch)
  with Some show ?thesis by (simp add: get_def Let_def)
qed

lemma wf_step:
  assumes "wf s" and "step x s = Inr s'"
  shows "wf s'"
proof (cases x)
  case (Get k)
  with assms wf_get [OF assms(1), of k] show ?thesis by auto
next
  case (Insert k v e)
  with assms show ?thesis by (auto intro: wf_insert_lru)
next
  case (Insert_On_Missing k v)
  with assms show ?thesis by (auto intro: wf_insert_on_missing)
qed

lemma wf_run: "wf s \<Longrightarrow> run xs s = Inr s' \<Longrightarrow> wf s'"
proof (induction xs arbitrary: s)
  case Nil
  then show ?case by simp
next
  case (Cons x xs)
  from Cons.prems(2) obtain s1 where st: "step x s = Inr s1" and r: "run xs s1 = Inr s'"
    by (auto split: sum.splits)
  from Cons.prems(1) st have "wf s1" by (rule wf_step)
  then show ?case using r by (rule Cons.IH)
qed

lemma wf_run_fresh:
  assumes "run_fresh c dk dv ops = Inr s"
  shows "wf s"
proof -
  from assms obtain s0 where c: "lru_cache c dk dv = Inr s0" and r: "run ops s0 = Inr s"
    by (auto simp: run_fresh_def split: sum.splits)
  from c have "wf s0" by (rule wf_fresh)
  then show ?thesis using r by (rule wf_run)
qed

subsection \<open>The capacity is constant\<close>

lemma max_size_evict_loop:
  "evict_loop i iter s = Inr (j, s') \<Longrightarrow> max_size s' = max_size s"
  by (induction i iter s rule: evict_loop.induct)
     (simp_all add: free_node_def htable_unlink_def)

lemma max_size_make_room:
  assumes "make_room_for_insert s = Inr s'"
  shows "max_size s' = max_size s"
proof (cases "length (free_nodes s) + nr_unevicted s < max_size s")
  case True
  with assms obtain j s1
    where l: "evict_loop (batch_evict_size s) (length (lru s)) s = Inr (j, s1)"
      and s': "s' = s1\<lparr>lru := take j (lru s1)\<rparr>"
    by (auto simp: make_room_for_insert_def split: sum.splits)
  from max_size_evict_loop [OF l] s' show ?thesis by simp
next
  case False
  with assms show ?thesis by (simp add: make_room_for_insert_def)
qed

lemma max_size_lru_touch [simp]: "max_size (lru_touch n s) = max_size s"
  by (cases "promotes n s") (simp_all add: lru_touch_promotes lru_touch_stays)

lemma max_size_do_insert: "do_insert k v e s = Inr s' \<Longrightarrow> max_size s' = max_size s"
  by (auto simp: do_insert_eq split: list.splits)

lemma max_size_insert_lru:
  assumes "insert_lru k v e s = Inr s'"
  shows "max_size s' = max_size s"
proof -
  from assms obtain s1 where mr: "make_room_for_insert s = Inr s1"
    by (auto simp: insert_lru_eq split: sum.splits)
  note m1 = max_size_make_room [OF mr]
  show ?thesis
  proof (cases "find_in_index k s1")
    case None
    with assms mr obtain s2 where di: "do_insert k v e s1 = Inr s2"
      and s': "s' = (if e then s2 else s2\<lparr>nr_unevicted := nr_unevicted s2 + 1\<rparr>)"
      by (auto simp: insert_lru_eq split: sum.splits)
    from max_size_do_insert [OF di] s' m1 show ?thesis by simp
  next
    case (Some n)
    with assms mr m1 show ?thesis by (auto simp: insert_lru_eq)
  qed
qed

lemma max_size_insert_on_missing:
  assumes "insert_on_missing k v s = Inr s'"
  shows "max_size s' = max_size s"
proof -
  from assms obtain s1 where mr: "make_room_for_insert s = Inr s1"
    by (auto simp: insert_on_missing_eq split: sum.splits)
  note m1 = max_size_make_room [OF mr]
  show ?thesis
  proof (cases "find_in_index k s1")
    case None
    with assms mr have "do_insert k v True s1 = Inr s'"
      by (simp add: insert_on_missing_eq)
    from max_size_do_insert [OF this] m1 show ?thesis by simp
  next
    case (Some n)
    with assms mr m1 show ?thesis by (simp add: insert_on_missing_eq)
  qed
qed

lemma max_size_get [simp]: "max_size (snd (get k s)) = max_size s"
  by (simp add: get_def Let_def split: option.splits)

lemma max_size_step:
  assumes "step x s = Inr s'"
  shows "max_size s' = max_size s"
proof (cases x)
  case (Get k)
  with assms show ?thesis by auto
next
  case (Insert k v e)
  with assms show ?thesis by (simp add: max_size_insert_lru)
next
  case (Insert_On_Missing k v)
  with assms show ?thesis by (simp add: max_size_insert_on_missing)
qed

lemma max_size_run: "run xs s = Inr s' \<Longrightarrow> max_size s' = max_size s"
proof (induction xs arbitrary: s)
  case Nil
  then show ?case by simp
next
  case (Cons x xs)
  from Cons.prems obtain s1 where st: "step x s = Inr s1" and r: "run xs s1 = Inr s'"
    by (auto split: sum.splits)
  from Cons.IH [OF r] max_size_step [OF st] show ?case by simp
qed

lemma max_size_run_fresh:
  assumes "run_fresh c dk dv ops = Inr s"
  shows "max_size s = c"
proof -
  from assms obtain s0 where c: "lru_cache c dk dv = Inr s0" and r: "run ops s0 = Inr s"
    by (auto simp: run_fresh_def split: sum.splits)
  from c have "max_size s0 = c" by (auto simp: lru_cache_def split: if_splits)
  with max_size_run [OF r] show ?thesis by simp
qed

subsection \<open>Evaluating concrete runs\<close>

lemma list_update_Cons_numeral:
  "(x # xs)[numeral k := y] = x # xs[pred_numeral k := y]"
  by (simp add: numeral_eq_Suc)

lemma make_room_eq:
  "make_room_for_insert s =
     (if length (free_nodes s) + nr_unevicted s < max_size s then
        if batch_evict_size s \<le> length (lru s) then Inr (evicted s) else Inl List_Underflow
      else Inr s)"
  by (simp add: make_room_evicts make_room_underflow make_room_idle)

lemma fresh_1:
  "lru_cache (Suc 0) dk dv =
     Inr \<lparr>max_size = 1, soft_promotion = 0, batch_evict_size = 1,
          node_pool = [\<lparr>key = dk, value' = dv, access_time = 0, promotion_time = 0, evictable = False\<rparr>,
                       \<lparr>key = dk, value' = dv, access_time = 0, promotion_time = 0, evictable = False\<rparr>],
          free_nodes = [0, 1], lru = [], index = [], current_time = 0,
          unevicted_list = [], nr_unevicted = 0\<rparr>"
  by (simp add: lru_cache_def push_pool_upt) (simp add: eval_nat_numeral upt_rec)

lemma fresh_4:
  "lru_cache 4 dk dv =
     Inr \<lparr>max_size = 4, soft_promotion = 2, batch_evict_size = 2,
          node_pool = replicate 8 \<lparr>key = dk, value' = dv, access_time = 0, promotion_time = 0, evictable = False\<rparr>,
          free_nodes = [0, 1, 2, 3, 4, 5, 6, 7], lru = [], index = [], current_time = 0,
          unevicted_list = [], nr_unevicted = 0\<rparr>"
  by (simp add: lru_cache_def push_pool_upt) (simp add: upt_rec)

lemma replicate_8: "replicate 8 x = [x, x, x, x, x, x, x, x]"
  by (simp add: eval_nat_numeral)

lemmas eval_simps =
  run_fresh_def lookup_after_def fresh_1 fresh_4 replicate_8
  insert_lru_eq insert_on_missing_eq make_room_eq evicted_def
  find_in_index_def do_insert_eq get_def lru_touch_def next_timestamp_def list_unlink_def
  Let_def list_update_Cons_numeral

lemma run_two_evictable:
  "run_fresh 1 0 0 [Insert 1 11 True, Insert 2 12 True] = Inr two_evictable"
  by (simp add: eval_simps two_evictable_def)

subsection \<open>Touching a node\<close>

lemma touch_spec_lru_touch:
  assumes "wf s" and "n \<in> set (index s)"
  shows "touch_spec n s (lru_touch n s)"
proof -
  from assms have lt: "n < length (node_pool s)" by (rule wf_node_bound)
  show ?thesis
  proof (cases "promotes n s")
    case True
    then have ev: "evictable (node_pool s ! n)" by (simp add: promotes_def)
    with wf_pinned_not_evictable [OF assms(1), of n]
    have "n \<notin> set (unevicted_list s)" by auto
    with True lt show ?thesis
      by (simp add: lru_touch_promotes touch_spec_def promotes_def)
  next
    case False
    with lt show ?thesis
      by (auto simp add: lru_touch_stays touch_spec_def promotes_def)
  qed
qed

lemma value_lru_touch:
  "value' (node_pool (lru_touch n s) ! m) = value' (node_pool s ! m)"
proof -
  have a: "\<And>t xs. value' (xs[n := (xs ! n)\<lparr>access_time := t\<rparr>] ! m) = value' (xs ! m)"
    by (rule nth_update_field [where f = "\<lambda>x. x\<lparr>access_time := t\<rparr>" for t]) simp
  have b: "\<And>t t' xs. value' (xs[n := (xs ! n)\<lparr>access_time := t, promotion_time := t'\<rparr>] ! m)
            = value' (xs ! m)"
    by (rule nth_update_field [where f = "\<lambda>x. x\<lparr>access_time := t, promotion_time := t'\<rparr>" for t t'])
       simp
  show ?thesis
    by (cases "promotes n s") (simp_all add: lru_touch_promotes lru_touch_stays a b)
qed

lemma index_lru_touch [simp]: "index (lru_touch n s) = index s"
  by (cases "promotes n s") (simp_all add: lru_touch_promotes lru_touch_stays)

lemma nr_unevicted_lru_touch [simp]: "nr_unevicted (lru_touch n s) = nr_unevicted s"
  by (cases "promotes n s") (simp_all add: lru_touch_promotes lru_touch_stays)

lemma key_lru_touch [simp]: "key (node_pool (lru_touch n s) ! m) = key (node_pool s ! m)"
  by (cases "promotes n s") (simp_all add: lru_touch_promotes lru_touch_stays)

lemma find_in_index_lru_touch [simp]: "find_in_index k (lru_touch n s) = find_in_index k s"
  by (simp add: find_in_index_def)

lemma find_in_index_value_update [simp]:
  "find_in_index k (s\<lparr>node_pool := (node_pool s)[n := (node_pool s ! n)\<lparr>value' := v\<rparr>]\<rparr>)
   = find_in_index k s"
  by (simp add: find_in_index_def)

subsection \<open>Present keys and the eviction check\<close>

lemma find_filter_keep:
  "find P xs = Some n \<Longrightarrow> Q n \<Longrightarrow> find P (filter Q xs) = Some n"
  by (induction xs) (auto split: if_splits)

text \<open>A present key whose node is not in the evicted batch is present after the check.\<close>

lemma survives_make_room:
  assumes w: "wf s"
    and present: "find_in_index k s = Some n"
    and survives: "length (free_nodes s) + nr_unevicted s < max_size s \<longrightarrow>
                   n \<notin> set (drop (length (lru s) - batch_evict_size s) (lru s))"
  shows "\<exists>s1 victims. make_room_for_insert s = Inr s1 \<and> find_in_index k s1 = Some n \<and>
               wf s1 \<and>
               node_pool s1 = node_pool s \<and> current_time s1 = current_time s \<and>
               unevicted_list s1 = unevicted_list s \<and> nr_unevicted s1 = nr_unevicted s \<and>
               lru s = lru s1 @ victims \<and> n \<notin> set victims \<and>
               (\<not> length (free_nodes s) + nr_unevicted s < max_size s \<longrightarrow> s1 = s)"
proof (cases "length (free_nodes s) + nr_unevicted s < max_size s")
  case True
  define victims where "victims = drop (length (lru s) - batch_evict_size s) (lru s)"
  from True survives have nv: "n \<notin> set victims" by (simp add: victims_def)
  from True wf_make_room_eq [OF w] have mr: "make_room_for_insert s = Inr (evicted s)"
    by simp
  have pool: "node_pool (evicted s) = node_pool s"
    and ix: "index (evicted s) = filter (\<lambda>n. n \<notin> set victims) (index s)"
    and same: "current_time (evicted s) = current_time s"
      "unevicted_list (evicted s) = unevicted_list s"
      "nr_unevicted (evicted s) = nr_unevicted s"
    and l: "lru s = lru (evicted s) @ victims"
    by (simp_all add: evicted_def Let_def victims_def)
  from present nv have "find_in_index k (evicted s) = Some n"
    unfolding find_in_index_def pool ix by (rule find_filter_keep)
  with mr pool same l nv True wf_evicted [OF w] show ?thesis by blast
next
  case False
  then have "make_room_for_insert s = Inr s" by (rule make_room_idle)
  with present w have "make_room_for_insert s = Inr s \<and> find_in_index k s = Some n \<and>
               wf s \<and>
               node_pool s = node_pool s \<and> current_time s = current_time s \<and>
               unevicted_list s = unevicted_list s \<and> nr_unevicted s = nr_unevicted s \<and>
               lru s = lru s @ [] \<and> n \<notin> set [] \<and>
               (\<not> length (free_nodes s) + nr_unevicted s < max_size s \<longrightarrow> s = s)"
    by simp
  then show ?thesis by blast
qed

subsection \<open>The example states\<close>

lemma replicate_7: "replicate 7 x = [x, x, x, x, x, x, x]"
  by (simp add: eval_nat_numeral)

lemma run_pinned_a: "run_fresh 4 0 [] [Insert 1 ''a'' False] = Inr pinned_a"
  by (simp add: eval_simps pinned_a_def replicate_7)

lemma run_two_evictable_Suc:
  "run_fresh (Suc 0) 0 0 [Insert 1 11 True, Insert 2 12 True] = Inr two_evictable"
  using run_two_evictable by simp

lemma two_evictable_trigger:
  "length (free_nodes two_evictable) + nr_unevicted two_evictable < max_size two_evictable"
  by (simp add: two_evictable_def)

lemma two_evictable_victims:
  "drop (length (lru two_evictable) - batch_evict_size two_evictable) (lru two_evictable) = [0]"
  by (simp add: two_evictable_def)

lemma two_evictable_find:
  "find_in_index 1 two_evictable = Some 0" "find_in_index 2 two_evictable = Some 1"
  by (simp_all add: two_evictable_def find_in_index_def)

lemma two_evictable_make_room:
  "make_room_for_insert two_evictable =
     Inr (two_evictable\<lparr>free_nodes := [0], index := [1], lru := [1]\<rparr>)"
  by (simp add: make_room_eq evicted_def two_evictable_def)

subsection \<open>Inserting keys that are not resident\<close>

lemma run_append:
  "run (xs @ ys) s = (case run xs s of Inl e \<Rightarrow> Inl e | Inr s' \<Rightarrow> run ys s')"
  by (induction xs arbitrary: s) (simp_all split: sum.splits)

lemma find_in_index_None: "(find_in_index k s = None) = (k \<notin> resident_keys s)"
  by (auto simp: find_in_index_def resident_keys_def find_None_iff)

lemma insert_new_key:
  assumes w: "wf s"
    and idle: "max_size s \<le> length (free_nodes s) + nr_unevicted s"
    and new: "k \<notin> resident_keys s"
    and nonempty: "free_nodes s \<noteq> []"
  shows "\<exists>s'. insert_lru k v e s = Inr s' \<and> wf s' \<and>
              resident_keys s' = insert k (resident_keys s) \<and>
              Suc (length (free_nodes s')) = length (free_nodes s) \<and>
              nr_unevicted s' = (if e then nr_unevicted s else Suc (nr_unevicted s)) \<and>
              max_size s' = max_size s"
proof -
  from nonempty obtain n rest where fr: "free_nodes s = n # rest"
    by (cases "free_nodes s") auto
  from idle have mr: "make_room_for_insert s = Inr s"
    by (simp add: make_room_idle)
  from new have fnd: "find_in_index k s = None" by (simp add: find_in_index_None)
  define s2 where "s2 = s\<lparr>free_nodes := rest,
                 current_time := current_time s + 1,
                 node_pool := (node_pool s)
                   [n := \<lparr>key = k, value' = v, access_time = current_time s + 1,
                          promotion_time = current_time s + 1, evictable = e\<rparr>],
                 index := n # index s,
                 lru := (if e then n # lru s else lru s),
                 unevicted_list := (if e then unevicted_list s else n # unevicted_list s)\<rparr>"
  define s' where "s' = (if e then s2 else s2\<lparr>nr_unevicted := nr_unevicted s2 + 1\<rparr>)"
  have di: "do_insert k v e s = Inr s2"
    by (simp add: do_insert_eq fr s2_def)
  have ins: "insert_lru k v e s = Inr s'"
    by (simp add: insert_lru_eq mr fnd di s'_def)
  from w ins have w': "wf s'" by (rule wf_insert_lru)
  from w fr have d: "distinct ((n # rest) @ unevicted_list s @ lru s)"
    and e: "set ((n # rest) @ unevicted_list s @ lru s) = {..<length (node_pool s)}"
    and i: "set (index s) = set (unevicted_list s) \<union> set (lru s)"
    by (simp_all add: wf_def)
  from d i have ni: "n \<notin> set (index s)" by auto
  from e have nlt: "n < length (node_pool s)" by auto
  have "resident_keys s' = insert k (resident_keys s)"
  proof -
    have "\<And>m. m \<in> set (index s) \<Longrightarrow>
            key ((node_pool s)[n := \<lparr>key = k, value' = v, access_time = current_time s + 1,
                          promotion_time = current_time s + 1, evictable = e\<rparr>] ! m)
            = key (node_pool s ! m)"
    proof -
      fix m
      assume "m \<in> set (index s)"
      with ni have "n \<noteq> m" by auto
      then show "key ((node_pool s)[n := \<lparr>key = k, value' = v,
                          access_time = current_time s + 1,
                          promotion_time = current_time s + 1, evictable = e\<rparr>] ! m)
            = key (node_pool s ! m)"
        by simp
    qed
    then show ?thesis
      using nlt by (auto simp: resident_keys_def s'_def s2_def)
  qed
  moreover have "Suc (length (free_nodes s')) = length (free_nodes s)"
    by (simp add: s'_def s2_def fr)
  moreover have "nr_unevicted s' = (if e then nr_unevicted s else Suc (nr_unevicted s))"
    by (simp add: s'_def s2_def)
  moreover have "max_size s' = max_size s"
    by (simp add: s'_def s2_def)
  ultimately show ?thesis using ins w' by blast
qed

lemma insert_new_key_exhausted:
  assumes "max_size s \<le> length (free_nodes s) + nr_unevicted s"
    and "k \<notin> resident_keys s"
    and "free_nodes s = []"
  shows "insert_lru k v e s = Inl Free_Pool_Empty"
  using assms
  by (simp add: insert_lru_eq make_room_idle find_in_index_None [symmetric] do_insert_eq)

lemma run_insert_all:
  assumes "wf s"
    and "max_size s + (if e then length kvs else 0) \<le> length (free_nodes s) + nr_unevicted s"
    and "distinct (map fst kvs)"
    and "fst ` set kvs \<inter> resident_keys s = {}"
    and "length kvs \<le> length (free_nodes s)"
  shows "\<exists>s'. run (insert_all e kvs) s = Inr s' \<and> wf s' \<and>
              resident_keys s' = fst ` set kvs \<union> resident_keys s \<and>
              length (free_nodes s') + length kvs = length (free_nodes s) \<and>
              nr_unevicted s' = nr_unevicted s + (if e then 0 else length kvs) \<and>
              max_size s' = max_size s"
  using assms
proof (induction kvs arbitrary: s)
  case Nil
  then show ?case by simp
next
  case (Cons kv kvs)
  obtain k v where kv: "kv = (k, v)" by (cases kv)
  from Cons.prems(2) have idle: "max_size s \<le> length (free_nodes s) + nr_unevicted s"
    by (simp split: if_splits)
  from Cons.prems(4) kv have new: "k \<notin> resident_keys s" by auto
  from Cons.prems(5) have ne: "free_nodes s \<noteq> []" by auto
  from insert_new_key [OF Cons.prems(1) idle new ne, of v e]
  obtain s1 where ins: "insert_lru k v e s = Inr s1" and w1: "wf s1"
    and rk: "resident_keys s1 = insert k (resident_keys s)"
    and fr: "Suc (length (free_nodes s1)) = length (free_nodes s)"
    and nr: "nr_unevicted s1 = (if e then nr_unevicted s else Suc (nr_unevicted s))"
    and ms: "max_size s1 = max_size s"
    by blast
  have p2: "max_size s1 + (if e then length kvs else 0)
            \<le> length (free_nodes s1) + nr_unevicted s1"
    using Cons.prems(2) fr nr ms by (simp split: if_splits)
  have p3: "distinct (map fst kvs)" using Cons.prems(3) by simp
  have p4: "fst ` set kvs \<inter> resident_keys s1 = {}"
    using Cons.prems(3,4) kv rk by auto
  have p5: "length kvs \<le> length (free_nodes s1)"
    using Cons.prems(5) fr by simp
  from Cons.IH [OF w1 p2 p3 p4 p5]
  obtain s' where r: "run (insert_all e kvs) s1 = Inr s'" and w': "wf s'"
    and rk': "resident_keys s' = fst ` set kvs \<union> resident_keys s1"
    and fr': "length (free_nodes s') + length kvs = length (free_nodes s1)"
    and nr': "nr_unevicted s' = nr_unevicted s1 + (if e then 0 else length kvs)"
    and ms': "max_size s' = max_size s1"
    by blast
  have "run (insert_all e (kv # kvs)) s = Inr s'"
    using ins r kv by simp
  moreover have "resident_keys s' = fst ` set (kv # kvs) \<union> resident_keys s"
    using rk rk' kv by auto
  moreover have "length (free_nodes s') + length (kv # kvs) = length (free_nodes s)"
    using fr fr' by simp
  moreover have "nr_unevicted s' = nr_unevicted s + (if e then 0 else length (kv # kvs))"
    using nr nr' by simp
  moreover have "max_size s' = max_size s" using ms ms' by simp
  ultimately show ?case using w' by blast
qed

lemma insert_all_append: "insert_all e (xs @ ys) = insert_all e xs @ insert_all e ys"
  by (induction xs) auto

lemma fresh_facts:
  assumes "lru_cache c dk dv = Inr s"
  shows "length (free_nodes s) = 2 * c" and "nr_unevicted s = 0"
    and "resident_keys s = {}" and "max_size s = c"
  using assms
  by (auto simp: lru_cache_def push_pool_upt resident_keys_def split: if_splits)

subsection \<open>Timestamps\<close>

lemma timestamps_ordered_live:
  "timestamps_ordered s =
     (\<forall>n\<in>live s. promotion_time (node_pool s ! n) \<le> access_time (node_pool s ! n) \<and>
                  access_time (node_pool s ! n) \<le> current_time s)"
  by (auto simp: timestamps_ordered_def live_def list_all_iff)

lemma word_succ_less:
  fixes x :: "64 word"
  assumes "unat x < m" and "m < 2 ^ 64"
  shows "x < x + 1" and "unat (x + 1) = Suc (unat x)"
proof -
  from assms have "unat x + unat (1 :: 64 word) < 2 ^ LENGTH(64)" by simp
  then have "unat (x + 1) = unat x + unat (1 :: 64 word)"
    by (simp only: unat_add_lem [THEN iffD1])
  then show u: "unat (x + 1) = Suc (unat x)" by simp
  then show "x < x + 1" by (simp add: word_less_nat_alt)
qed

lemma stamps_ordered:
  assumes "timestamps_ordered s" and "stamps s s'"
    and "unat (current_time s) < m" and "m < 2 ^ 64"
  shows "timestamps_ordered s' \<and> unat (current_time s') \<le> Suc (unat (current_time s)) \<and>
         current_time s \<le> current_time s'"
proof -
  note lt = word_succ_less [OF assms(3,4)]
  from lt(1) have le: "\<And>y. y \<le> current_time s \<Longrightarrow> y \<le> current_time s + 1"
    by auto
  from assms(2) have ct: "current_time s' = current_time s \<or> current_time s' = current_time s + 1"
    by (simp add: stamps_def)
  have "promotion_time (node_pool s' ! n) \<le> access_time (node_pool s' ! n) \<and>
        access_time (node_pool s' ! n) \<le> current_time s'" if n: "n \<in> live s'" for n
  proof -
    from assms(2) n consider
      (old) "n \<in> live s" "access_time (node_pool s' ! n) = access_time (node_pool s ! n)"
        "promotion_time (node_pool s' ! n) = promotion_time (node_pool s ! n)"
      | (new) "current_time s' = current_time s + 1"
        "access_time (node_pool s' ! n) = current_time s + 1"
        "promotion_time (node_pool s' ! n) = current_time s + 1"
      | (touched) "current_time s' = current_time s + 1"
        "access_time (node_pool s' ! n) = current_time s + 1"
        "n \<in> live s" "promotion_time (node_pool s' ! n) = promotion_time (node_pool s ! n)"
      unfolding stamps_def by blast
    then show ?thesis
    proof cases
      case old
      with assms(1) have "promotion_time (node_pool s' ! n) \<le> access_time (node_pool s' ! n)"
        and "access_time (node_pool s' ! n) \<le> current_time s"
        by (simp_all add: timestamps_ordered_live)
      with ct le show ?thesis by auto
    next
      case new
      then show ?thesis by simp
    next
      case touched
      with assms(1) have "promotion_time (node_pool s' ! n) \<le> current_time s"
        by (auto simp add: timestamps_ordered_live)
      with touched le show ?thesis by simp
    qed
  qed
  then have "timestamps_ordered s'" by (simp add: timestamps_ordered_live)
  moreover from ct lt have "unat (current_time s') \<le> Suc (unat (current_time s))"
    by auto
  moreover from ct lt(1) have "current_time s \<le> current_time s'" by auto
  ultimately show ?thesis by simp
qed

lemma stamps_refl: "stamps s s"
  by (simp add: stamps_def)

lemma stamps_shrink:
  assumes "stamps s1 s'"
    and "current_time s1 = current_time s"
    and "live s1 \<subseteq> live s"
    and "\<And>m. access_time (node_pool s1 ! m) = access_time (node_pool s ! m)"
    and "\<And>m. promotion_time (node_pool s1 ! m) = promotion_time (node_pool s ! m)"
  shows "stamps s s'"
  using assms(1,3) unfolding stamps_def assms(2,4,5) by blast

lemma times_value_update [simp]:
  "access_time (xs[n := (xs ! n)\<lparr>value' := v\<rparr>] ! m) = access_time (xs ! m)"
  "promotion_time (xs[n := (xs ! n)\<lparr>value' := v\<rparr>] ! m) = promotion_time (xs ! m)"
  by (rule nth_update_field [where f = "\<lambda>x. x\<lparr>value' := v\<rparr>"], simp)+

lemma stamps_lru_touch:
  assumes "wf s" and "n \<in> set (index s)"
  shows "stamps s (lru_touch n s)"
proof -
  from assms have lt: "n < length (node_pool s)" by (rule wf_node_bound)
  from assms have nl: "n \<in> live s" by (auto simp add: wf_index_live live_def)
  show ?thesis
  proof (cases "promotes n s")
    case True
    then have "evictable (node_pool s ! n)" by (simp add: promotes_def)
    with wf_pinned_not_evictable [OF assms(1), of n] nl
    have "n \<in> set (lru s)" by (auto simp: live_def)
    then have "live (lru_touch n s) \<subseteq> live s"
      by (auto simp: lru_touch_promotes [OF True] live_def)
    with lt show ?thesis
      by (auto simp: lru_touch_promotes [OF True] stamps_def nth_list_update)
  next
    case False
    have "live (lru_touch n s) = live s"
      by (simp add: lru_touch_stays [OF False] live_def)
    with lt nl show ?thesis
      by (auto simp: lru_touch_stays [OF False] stamps_def nth_list_update)
  qed
qed

lemma stamps_do_insert:
  assumes "wf s" and "do_insert k v e s = Inr s'"
  shows "stamps s s'"
proof (cases "free_nodes s")
  case Nil
  with assms(2) show ?thesis by (simp add: do_insert_eq)
next
  case (Cons n rest)
  from assms(1) Cons have d: "distinct ((n # rest) @ unevicted_list s @ lru s)"
    and e: "set ((n # rest) @ unevicted_list s @ lru s) = {..<length (node_pool s)}"
    by (simp_all add: wf_def)
  from d have nl: "n \<notin> live s" by (auto simp: live_def)
  from e have lt: "n < length (node_pool s)" by auto
  from assms(2) Cons have s': "s' = s\<lparr>free_nodes := rest,
                 current_time := current_time s + 1,
                 node_pool := (node_pool s)
                   [n := \<lparr>key = k, value' = v, access_time = current_time s + 1,
                          promotion_time = current_time s + 1, evictable = e\<rparr>],
                 index := n # index s,
                 lru := (if e then n # lru s else lru s),
                 unevicted_list := (if e then unevicted_list s else n # unevicted_list s)\<rparr>"
    by (simp add: do_insert_eq)
  have l': "live s' = insert n (live s)"
    by (auto simp: s' live_def)
  show ?thesis
    unfolding stamps_def l'
    using nl lt by (auto simp: s' nth_list_update)
qed

lemma stamps_nr_unevicted:
  "stamps s s' \<Longrightarrow> stamps s (s'\<lparr>nr_unevicted := x\<rparr>)"
  by (simp add: stamps_def live_def)

lemma make_room_frame:
  assumes "wf s" and "make_room_for_insert s = Inr s1"
  shows "node_pool s1 = node_pool s" and "current_time s1 = current_time s"
    and "live s1 \<subseteq> live s"
  using assms
  by (auto simp: wf_make_room_eq evicted_def Let_def live_def split: if_splits
      dest: in_set_takeD)

lemma stamps_insert_lru:
  assumes "wf s" and "insert_lru k v e s = Inr s'"
  shows "stamps s s'"
proof -
  from assms(2) obtain s1 where mr: "make_room_for_insert s = Inr s1"
    by (auto simp: insert_lru_eq split: sum.splits)
  have w1: "wf s1" using assms(1) mr by (rule wf_make_room)
  note fr = make_room_frame [OF assms(1) mr]
  have "stamps s1 s'"
  proof (cases "find_in_index k s1")
    case None
    with assms(2) mr obtain s2 where di: "do_insert k v e s1 = Inr s2"
      and s': "s' = (if e then s2 else s2\<lparr>nr_unevicted := nr_unevicted s2 + 1\<rparr>)"
      by (auto simp: insert_lru_eq split: sum.splits)
    from stamps_do_insert [OF w1 di] s' show ?thesis
      by (simp add: stamps_nr_unevicted)
  next
    case (Some n)
    let ?s2 = "s1\<lparr>node_pool := (node_pool s1)[n := (node_pool s1 ! n)\<lparr>value' := v\<rparr>]\<rparr>"
    from Some have "n \<in> set (index s1)" by (simp add: find_in_index_mem)
    then have "n \<in> set (index ?s2)" by simp
    with wf_value_update [OF w1] have "stamps ?s2 (lru_touch n ?s2)"
      by (rule stamps_lru_touch)
    then have "stamps s1 (lru_touch n ?s2)"
      by (rule stamps_shrink) (simp_all add: live_def)
    with assms(2) mr Some show ?thesis by (simp add: insert_lru_eq)
  qed
  then show ?thesis by (rule stamps_shrink) (simp_all add: fr)
qed

lemma stamps_insert_on_missing:
  assumes "wf s" and "insert_on_missing k v s = Inr s'"
  shows "stamps s s'"
proof -
  from assms(2) obtain s1 where mr: "make_room_for_insert s = Inr s1"
    by (auto simp: insert_on_missing_eq split: sum.splits)
  have w1: "wf s1" using assms(1) mr by (rule wf_make_room)
  note fr = make_room_frame [OF assms(1) mr]
  have "stamps s1 s'"
  proof (cases "find_in_index k s1")
    case None
    with assms(2) mr have "do_insert k v True s1 = Inr s'"
      by (simp add: insert_on_missing_eq)
    with w1 show ?thesis by (rule stamps_do_insert)
  next
    case (Some n)
    with assms(2) mr show ?thesis by (simp add: insert_on_missing_eq stamps_refl)
  qed
  then show ?thesis by (rule stamps_shrink) (simp_all add: fr)
qed

lemma stamps_step:
  assumes "wf s" and "step x s = Inr s'"
  shows "stamps s s'"
proof (cases x)
  case (Get k)
  show ?thesis
  proof (cases "find_in_index k s")
    case None
    with assms(2) Get show ?thesis by (auto simp: get_def stamps_refl)
  next
    case (Some n)
    then have "n \<in> set (index s)" by (simp add: find_in_index_mem)
    with assms(1) have "stamps s (lru_touch n s)" by (rule stamps_lru_touch)
    with assms(2) Get Some show ?thesis by (auto simp: get_def Let_def)
  qed
next
  case (Insert k v e)
  with assms show ?thesis by (auto intro: stamps_insert_lru)
next
  case (Insert_On_Missing k v)
  with assms show ?thesis by (auto intro: stamps_insert_on_missing)
qed

lemma timestamps_run:
  assumes "wf s" and "timestamps_ordered s"
    and "unat (current_time s) + length xs < 2 ^ 64"
    and "run xs s = Inr s'"
  shows "timestamps_ordered s' \<and> unat (current_time s') \<le> unat (current_time s) + length xs"
  using assms
proof (induction xs arbitrary: s)
  case Nil
  then show ?case by simp
next
  case (Cons x xs)
  from Cons.prems(4) obtain s1 where st: "step x s = Inr s1" and r: "run xs s1 = Inr s'"
    by (auto split: sum.splits)
  from Cons.prems(1) st have w1: "wf s1" by (rule wf_step)
  from Cons.prems(1) st have sp: "stamps s s1" by (rule stamps_step)
  from Cons.prems(3) have b: "unat (current_time s) < unat (current_time s) + length (x # xs)"
    by simp
  from stamps_ordered [OF Cons.prems(2) sp b Cons.prems(3)]
  have o1: "timestamps_ordered s1" and c1: "unat (current_time s1) \<le> Suc (unat (current_time s))"
    by simp_all
  from c1 Cons.prems(3) have b1: "unat (current_time s1) + length xs < 2 ^ 64" by simp
  from Cons.IH [OF w1 o1 b1 r] c1 show ?case by simp
qed

lemma fresh_timestamps:
  assumes "lru_cache c dk dv = Inr s"
  shows "timestamps_ordered s" and "current_time s = 0"
  using assms by (auto simp: lru_cache_def timestamps_ordered_def split: if_splits)

lemma run_pinned_clock: "run_fresh (Suc 0) 0 0 [Insert 0 7 False] = Inr (pinned_clock 1)"
  by (simp add: eval_simps pinned_clock_def)

lemma get_pinned_clock: "snd (get 0 (pinned_clock t)) = pinned_clock (t + 1)"
  by (simp add: get_def find_in_index_def lru_touch_def next_timestamp_def Let_def
      pinned_clock_def)

lemma gets_pinned_clock:
  "run (replicate m (Get 0)) (pinned_clock t) = Inr (pinned_clock (t + of_nat m))"
proof (induction m arbitrary: t)
  case 0
  then show ?case by simp
next
  case (Suc m)
  have "run (replicate (Suc m) (Get 0)) (pinned_clock t)
        = run (replicate m (Get 0)) (pinned_clock (t + 1))"
    by (simp add: get_pinned_clock)
  also have "\<dots> = Inr (pinned_clock (t + 1 + of_nat m))" by (rule Suc.IH)
  also have "t + 1 + of_nat m = t + of_nat (Suc m)" by simp
  finally show ?case .
qed

lemma run_fresh_append:
  "run_fresh c dk dv xs = Inr s \<Longrightarrow> run_fresh c dk dv (xs @ ys) = run ys s"
  by (auto simp: run_fresh_def run_append split: sum.splits)

lemma wrap_64: "(1 :: 64 word) + of_nat (2 ^ 64 - 1) = 0"
  by simp

subsection \<open>Keys are unique in the index\<close>

lemma unique_keys_evicted: "unique_keys s \<Longrightarrow> unique_keys (evicted s)"
  by (simp add: unique_keys_def evicted_def Let_def distinct_map_filter)

lemma unique_keys_make_room:
  "wf s \<Longrightarrow> unique_keys s \<Longrightarrow> make_room_for_insert s = Inr s1 \<Longrightarrow> unique_keys s1"
  by (auto simp: wf_make_room_eq unique_keys_evicted split: if_splits)

lemma unique_keys_lru_touch: "unique_keys s \<Longrightarrow> unique_keys (lru_touch n s)"
  by (simp add: unique_keys_def)

lemma unique_keys_value_update:
  "unique_keys s \<Longrightarrow>
   unique_keys (s\<lparr>node_pool := (node_pool s)[n := (node_pool s ! n)\<lparr>value' := v\<rparr>]\<rparr>)"
  by (simp add: unique_keys_def)

lemma unique_keys_do_insert:
  assumes w: "wf s" and u: "unique_keys s" and new: "find_in_index k s = None"
    and di: "do_insert k v e s = Inr s'"
  shows "unique_keys s'"
proof (cases "free_nodes s")
  case Nil
  with di show ?thesis by (simp add: do_insert_eq)
next
  case (Cons n rest)
  from w Cons have d: "distinct ((n # rest) @ unevicted_list s @ lru s)"
    and e: "set ((n # rest) @ unevicted_list s @ lru s) = {..<length (node_pool s)}"
    and i: "set (index s) = set (unevicted_list s) \<union> set (lru s)"
    by (simp_all add: wf_def)
  from d i have ni: "n \<notin> set (index s)" by auto
  from e have lt: "n < length (node_pool s)" by auto
  let ?pool = "(node_pool s)[n := \<lparr>key = k, value' = v, access_time = current_time s + 1,
                          promotion_time = current_time s + 1, evictable = e\<rparr>]"
  have "key (?pool ! m) = key (node_pool s ! m)" if "m \<in> set (index s)" for m
  proof -
    from that ni have "n \<noteq> m" by auto
    then show ?thesis by simp
  qed
  then have same:
    "map (\<lambda>m. key (?pool ! m)) (index s) = map (\<lambda>m. key (node_pool s ! m)) (index s)"
    by simp
  from new have "k \<notin> resident_keys s" by (simp add: find_in_index_None)
  then have knew: "k \<notin> set (map (\<lambda>m. key (node_pool s ! m)) (index s))"
    by (simp add: resident_keys_def)
  from di Cons have ix: "index s' = n # index s" and pl: "node_pool s' = ?pool"
    by (auto simp: do_insert_eq)
  show ?thesis
    unfolding unique_keys_def ix pl
    using u knew lt by (simp add: same unique_keys_def)
qed

lemma unique_keys_nr_unevicted:
  "unique_keys (s\<lparr>nr_unevicted := x\<rparr>) = unique_keys s"
  by (simp add: unique_keys_def)

lemma unique_keys_step:
  assumes w: "wf s" and u: "unique_keys s" and st: "step x s = Inr s'"
  shows "unique_keys s'"
proof (cases x)
  case (Get k)
  with st u show ?thesis
    by (auto simp: get_def Let_def unique_keys_lru_touch split: option.splits)
next
  case (Insert k v e)
  with st have ins: "insert_lru k v e s = Inr s'" by simp
  then obtain s1 where mr: "make_room_for_insert s = Inr s1"
    by (auto simp: insert_lru_eq split: sum.splits)
  have w1: "wf s1" using w mr by (rule wf_make_room)
  have u1: "unique_keys s1" using w u mr by (rule unique_keys_make_room)
  show ?thesis
  proof (cases "find_in_index k s1")
    case None
    with ins mr obtain s2 where di: "do_insert k v e s1 = Inr s2"
      and s': "s' = (if e then s2 else s2\<lparr>nr_unevicted := nr_unevicted s2 + 1\<rparr>)"
      by (auto simp: insert_lru_eq split: sum.splits)
    from unique_keys_do_insert [OF w1 u1 None di] s' show ?thesis
      by (simp add: unique_keys_nr_unevicted)
  next
    case (Some n)
    with ins mr u1 show ?thesis
      by (auto simp: insert_lru_eq unique_keys_lru_touch unique_keys_value_update)
  qed
next
  case (Insert_On_Missing k v)
  with st have ins: "insert_on_missing k v s = Inr s'" by simp
  then obtain s1 where mr: "make_room_for_insert s = Inr s1"
    by (auto simp: insert_on_missing_eq split: sum.splits)
  have w1: "wf s1" using w mr by (rule wf_make_room)
  have u1: "unique_keys s1" using w u mr by (rule unique_keys_make_room)
  show ?thesis
  proof (cases "find_in_index k s1")
    case None
    with ins mr have "do_insert k v True s1 = Inr s'" by (simp add: insert_on_missing_eq)
    with w1 u1 None show ?thesis by (rule unique_keys_do_insert)
  next
    case (Some n)
    with ins mr u1 show ?thesis by (simp add: insert_on_missing_eq)
  qed
qed

lemma unique_keys_run:
  "wf s \<Longrightarrow> unique_keys s \<Longrightarrow> run xs s = Inr s' \<Longrightarrow> unique_keys s'"
proof (induction xs arbitrary: s)
  case Nil
  then show ?case by simp
next
  case (Cons x xs)
  from Cons.prems(3) obtain s1 where st: "step x s = Inr s1" and r: "run xs s1 = Inr s'"
    by (auto split: sum.splits)
  from Cons.prems(1) st have "wf s1" by (rule wf_step)
  moreover from Cons.prems(1,2) st have "unique_keys s1" by (rule unique_keys_step)
  ultimately show ?case using r by (rule Cons.IH)
qed

text \<open>
  In a reachable state no two nodes of the index hold the same key, so the lookup finds
  the one node that holds the key, in whatever order the nodes are searched.
\<close>

lemma unique_keys_run_fresh:
  assumes "run_fresh c dk dv ops = Inr s"
  shows "unique_keys s"
proof -
  from assms obtain s0 where c0: "lru_cache c dk dv = Inr s0" and r: "run ops s0 = Inr s"
    by (auto simp: run_fresh_def split: sum.splits)
  from c0 have "unique_keys s0"
    by (auto simp: lru_cache_def unique_keys_def split: if_splits)
  with wf_fresh [OF c0] show ?thesis using r by (rule unique_keys_run)
qed

lemma find_in_index_unique:
  assumes "unique_keys s" and "n \<in> set (index s)" and "key (node_pool s ! n) = k"
  shows "find_in_index k s = Some n"
proof -
  from assms(2) obtain i where i: "i < length (index s)" "index s ! i = n"
    by (auto simp: in_set_conv_nth)
  have "\<forall>j<i. key (node_pool s ! (index s ! j)) \<noteq> k"
  proof (intro allI impI notI)
    fix j assume j: "j < i" and eq: "key (node_pool s ! (index s ! j)) = k"
    from j i have jl: "j < length (index s)" by simp
    from assms(1) have "\<forall>a<length (index s). \<forall>b<length (index s). a \<noteq> b \<longrightarrow>
          key (node_pool s ! (index s ! a)) \<noteq> key (node_pool s ! (index s ! b))"
      by (simp add: unique_keys_def distinct_conv_nth)
    with i jl j have "key (node_pool s ! (index s ! j)) \<noteq> key (node_pool s ! (index s ! i))"
      by (metis nat_neq_iff)
    with eq i assms(3) show False by simp
  qed
  with i assms(3) show ?thesis
    by (auto simp: find_in_index_def find_Some_iff)
qed

subsection \<open>Insertions of pinned entries\<close>

lemma free_nodes_lru_touch [simp]: "free_nodes (lru_touch n s) = free_nodes s"
  by (cases "promotes n s") (simp_all add: lru_touch_promotes lru_touch_stays)

lemma pinned_insert_keeps_lru_length:
  assumes w: "wf s" and ins: "insert_lru k v False s = Inr s'"
  shows "\<exists>s1. make_room_for_insert s = Inr s1 \<and> length (lru s') = length (lru s1)"
proof -
  from ins obtain s1 where mr: "make_room_for_insert s = Inr s1"
    by (auto simp: insert_lru_eq split: sum.splits)
  have w1: "wf s1" using w mr by (rule wf_make_room)
  have "length (lru s') = length (lru s1)"
  proof (cases "find_in_index k s1")
    case None
    with ins mr obtain s2 where di: "do_insert k v False s1 = Inr s2"
      and s': "s' = s2\<lparr>nr_unevicted := nr_unevicted s2 + 1\<rparr>"
      by (auto simp: insert_lru_eq split: sum.splits)
    from di have "lru s2 = lru s1" by (auto simp: do_insert_eq split: list.splits)
    with s' show ?thesis by simp
  next
    case (Some n)
    let ?s2 = "s1\<lparr>node_pool := (node_pool s1)[n := (node_pool s1 ! n)\<lparr>value' := v\<rparr>]\<rparr>"
    from ins mr Some have s': "s' = lru_touch n ?s2" by (simp add: insert_lru_eq)
    from Some have "n \<in> set (index ?s2)" by (simp add: find_in_index_mem)
    with wf_value_update [OF w1] have "touch_spec n ?s2 s'"
      unfolding s' by (rule touch_spec_lru_touch)
    then have un: "unevicted_list s' = unevicted_list s1" by (simp add: touch_spec_def)
    have fr: "free_nodes s' = free_nodes s1" by (simp add: s')
    from w ins have "wf s'" by (rule wf_insert_lru)
    from wf_total [OF this] wf_total [OF w1] max_size_insert_lru [OF ins]
      max_size_make_room [OF mr] un fr
    show ?thesis by simp
  qed
  with mr show ?thesis by blast
qed

section \<open>The claims\<close>

subsection \<open>C9: the pool is partitioned\<close>

text \<open>
  Claim C9.  After construction and after every public operation, in every reachable
  state, the number of nodes on the free pool plus the number on the pinned list plus
  the number on the evictable list is the pool size \<open>2 * capacity\<close>, and every pool node
  is in exactly one of the three: the three containers together hold every position of
  the pool once.
\<close>

theorem pool_partition:
  assumes "run_fresh c dk dv ops = Inr s"
  shows "length (free_nodes s) + length (unevicted_list s) + length (lru s) = 2 * c \<and>
         length (node_pool s) = 2 * c \<and>
         distinct (free_nodes s @ unevicted_list s @ lru s) \<and>
         set (free_nodes s @ unevicted_list s @ lru s) = {..<2 * c}"
proof -
  from assms have w: "wf s" by (rule wf_run_fresh)
  from assms have m: "max_size s = c" by (rule max_size_run_fresh)
  from w have "length (node_pool s) = 2 * max_size s"
    and "distinct (free_nodes s @ unevicted_list s @ lru s)"
    and "set (free_nodes s @ unevicted_list s @ lru s) = {..<2 * max_size s}"
    by (simp_all add: wf_def)
  with wf_total [OF w] m show ?thesis by simp
qed

text \<open>The theorem at the cache of capacity 1 holding the evictable keys 1 and 2.\<close>

theorem pool_partition_witness:
  "run_fresh 1 0 0 [Insert 1 11 True, Insert 2 12 True] = Inr two_evictable \<and>
   length (free_nodes two_evictable) + length (unevicted_list two_evictable)
     + length (lru two_evictable) = 2 * 1 \<and>
   length (node_pool two_evictable) = 2 * 1 \<and>
   distinct (free_nodes two_evictable @ unevicted_list two_evictable @ lru two_evictable) \<and>
   set (free_nodes two_evictable @ unevicted_list two_evictable @ lru two_evictable)
     = {..<2 * 1}"
  using pool_partition [OF run_two_evictable] run_two_evictable by simp

subsection \<open>C8: the eviction trigger\<close>

text \<open>
  Claim C8, as stated, fails in its last clause.  Every insertion runs the eviction
  check first, whatever its flag.  In a cache of capacity 4 holding the evictable keys
  1 to 5, the insertion of the pinned key 100 evicts the keys 1 and 2, which are
  resident without it.
\<close>

theorem trigger_iff_lru_over_capacity_counterexample:
  "lookup_after 4 0 0
     [Insert 1 11 True, Insert 2 12 True, Insert 3 13 True, Insert 4 14 True, Insert 5 15 True]
     (1 :: 64 word) = Inr (Some (11 :: 64 word)) \<and>
   lookup_after 4 0 0
     [Insert 1 11 True, Insert 2 12 True, Insert 3 13 True, Insert 4 14 True, Insert 5 15 True,
      Insert 100 7 False]
     (1 :: 64 word) = Inr (None :: 64 word option) \<and>
   lookup_after 4 0 0
     [Insert 1 11 True, Insert 2 12 True, Insert 3 13 True, Insert 4 14 True, Insert 5 15 True,
      Insert 100 7 False]
     (2 :: 64 word) = Inr (None :: 64 word option)"
  by (simp add: eval_simps)

text \<open>
  Claim C8, amended.  In every reachable state the trigger condition
  \<open>free_nodes + pinned_count < capacity\<close> is equivalent to \<open>capacity < |lru|\<close>: whether
  the eviction check fires depends on the evictable list alone, not on the number of
  pinned entries.  The insertion of a pinned entry runs the same check as every
  insertion; beyond what that check removes it leaves the length of the evictable list
  as it is, so that the trigger condition after it is again \<open>capacity < |lru|\<close> for the
  list the check has left.
\<close>

theorem trigger_iff_lru_over_capacity:
  assumes "run_fresh c dk dv ops = Inr s"
  shows "max_size s = c \<and>
         (length (free_nodes s) + nr_unevicted s < max_size s) = (max_size s < length (lru s)) \<and>
         (\<forall>k v s'. insert_lru k v False s = Inr s' \<longrightarrow>
            (\<exists>s1. make_room_for_insert s = Inr s1 \<and>
                  length (lru s') = length (lru s1) \<and>
                  (length (free_nodes s') + nr_unevicted s' < max_size s')
                    = (max_size s < length (lru s1))))"
proof -
  from assms have w: "wf s" by (rule wf_run_fresh)
  have "\<exists>s1. make_room_for_insert s = Inr s1 \<and>
                  length (lru s') = length (lru s1) \<and>
                  (length (free_nodes s') + nr_unevicted s' < max_size s')
                    = (max_size s < length (lru s1))"
    if ins: "insert_lru k v False s = Inr s'" for k v s'
  proof -
    from pinned_insert_keeps_lru_length [OF w ins]
    obtain s1 where mr: "make_room_for_insert s = Inr s1"
      and len: "length (lru s') = length (lru s1)" by blast
    from w ins have "wf s'" by (rule wf_insert_lru)
    from wf_trigger_iff [OF this] len max_size_insert_lru [OF ins]
    have "(length (free_nodes s') + nr_unevicted s' < max_size s')
            = (max_size s < length (lru s1))" by simp
    with mr len show ?thesis by blast
  qed
  with wf_trigger_iff [OF w] max_size_run_fresh [OF assms] show ?thesis by blast
qed

text \<open>
  The theorem at the cache of capacity 1 holding the evictable keys 1 and 2, and the
  insertion of the pinned key 3.
\<close>

theorem trigger_iff_lru_over_capacity_witness:
  "run_fresh 1 0 0 [Insert 1 11 True, Insert 2 12 True] = Inr two_evictable \<and>
   max_size two_evictable = 1 \<and>
   (length (free_nodes two_evictable) + nr_unevicted two_evictable < max_size two_evictable)
     = (max_size two_evictable < length (lru two_evictable)) \<and>
   insert_lru 3 7 False two_evictable =
     Inr (two_evictable
          \<lparr>node_pool :=
             [\<lparr>key = 3, value' = 7, access_time = 3, promotion_time = 3, evictable = False\<rparr>,
              \<lparr>key = 2, value' = 12, access_time = 2, promotion_time = 2, evictable = True\<rparr>],
           lru := [1], index := [0, 1], current_time := 3,
           unevicted_list := [0], nr_unevicted := 1\<rparr>) \<and>
   make_room_for_insert two_evictable =
     Inr (two_evictable\<lparr>free_nodes := [0], index := [1], lru := [1]\<rparr>) \<and>
   length (lru (two_evictable
          \<lparr>node_pool :=
             [\<lparr>key = 3, value' = 7, access_time = 3, promotion_time = 3, evictable = False\<rparr>,
              \<lparr>key = 2, value' = 12, access_time = 2, promotion_time = 2, evictable = True\<rparr>],
           lru := [1], index := [0, 1], current_time := 3,
           unevicted_list := [0], nr_unevicted := 1\<rparr>))
     = length (lru (two_evictable\<lparr>free_nodes := [0], index := [1], lru := [1]\<rparr>))"
proof -
  let ?s' = "two_evictable
          \<lparr>node_pool :=
             [\<lparr>key = 3, value' = 7, access_time = 3, promotion_time = 3, evictable = False\<rparr>,
              \<lparr>key = 2, value' = 12, access_time = 2, promotion_time = 2, evictable = True\<rparr>],
           lru := [1], index := [0, 1], current_time := 3,
           unevicted_list := [0], nr_unevicted := 1\<rparr>"
  have ins: "insert_lru 3 7 False two_evictable = Inr ?s'"
    by (simp add: insert_lru_eq make_room_eq evicted_def do_insert_eq find_in_index_def
        two_evictable_def)
  from trigger_iff_lru_over_capacity [OF run_two_evictable]
  have a: "max_size two_evictable = 1"
    and b: "(length (free_nodes two_evictable) + nr_unevicted two_evictable
              < max_size two_evictable)
            = (max_size two_evictable < length (lru two_evictable))"
    and c: "\<exists>s1. make_room_for_insert two_evictable = Inr s1 \<and>
                 length (lru ?s') = length (lru s1)"
    using ins by blast+
  from c two_evictable_make_room
  have d: "length (lru ?s')
           = length (lru (two_evictable\<lparr>free_nodes := [0], index := [1], lru := [1]\<rparr>))"
    by auto
  from run_two_evictable a b ins two_evictable_make_room d show ?thesis by blast
qed

subsection \<open>C4: the eviction loop stays inside the list\<close>

text \<open>
  Claim C4.  Whenever the eviction path runs in a reachable state, the evictable list
  holds more than \<open>batch_evict_size\<close> nodes: the loop, which steps the iterator back
  from the end \<open>batch_evict_size\<close> times, ends at a position after the first element,
  and exactly \<open>batch_evict_size\<close> nodes leave the list.
\<close>

theorem eviction_no_underflow:
  assumes "run_fresh c dk dv ops = Inr s"
    and "length (free_nodes s) + nr_unevicted s < max_size s"
  shows "batch_evict_size s < length (lru s) \<and>
         (\<exists>s'. evict_loop (batch_evict_size s) (length (lru s)) s
                 = Inr (length (lru s) - batch_evict_size s, s') \<and>
               0 < length (lru s) - batch_evict_size s) \<and>
         (\<exists>s'. make_room_for_insert s = Inr s' \<and>
               length (lru s) - length (lru s') = batch_evict_size s)"
proof -
  from assms(1) have w: "wf s" by (rule wf_run_fresh)
  from assms(2) wf_trigger_iff [OF w] wf_batch(2) [OF w]
  have lt: "batch_evict_size s < length (lru s)" by simp
  then have loop: "evict_loop (batch_evict_size s) (length (lru s)) s =
      Inr (length (lru s) - batch_evict_size s,
           s\<lparr>free_nodes := drop (length (lru s) - batch_evict_size s)
                               (take (length (lru s)) (lru s)) @ free_nodes s,
             index := filter (\<lambda>n. n \<notin> set (drop (length (lru s) - batch_evict_size s)
                               (take (length (lru s)) (lru s)))) (index s)\<rparr>)"
    by (intro evict_loop_eq) simp_all
  from lt assms(2) have mr: "make_room_for_insert s = Inr (evicted s)"
    by (simp add: make_room_evicts)
  from lt have "length (lru s) - length (lru (evicted s)) = batch_evict_size s"
    by (simp add: evicted_def Let_def)
  with lt loop mr show ?thesis by simp
qed

text \<open>
  The theorem at the cache of capacity 1 holding the evictable keys 1 and 2, where the
  trigger fires.
\<close>

theorem eviction_no_underflow_witness:
  "run_fresh 1 0 0 [Insert 1 11 True, Insert 2 12 True] = Inr two_evictable \<and>
   length (free_nodes two_evictable) + nr_unevicted two_evictable < max_size two_evictable \<and>
   batch_evict_size two_evictable < length (lru two_evictable)"
proof -
  have t: "length (free_nodes two_evictable) + nr_unevicted two_evictable
           < max_size two_evictable"
    by (simp add: two_evictable_def)
  from eviction_no_underflow [OF run_two_evictable t] run_two_evictable t
  show ?thesis by simp
qed

subsection \<open>C5: the eviction check\<close>

text \<open>
  Claim C5.  In every state of a cache, the eviction check that precedes an insertion
  evicts exactly when \<open>free_nodes + pinned_count < capacity\<close>.  When it evicts, it
  removes \<open>batch_evict_size = min 3 (capacity - soft_promotion_threshold)\<close> nodes from
  the tail of the evictable list, unlinks each from the hash index and pushes each on the
  free pool; the pinned list is never changed.
\<close>

theorem eviction_check:
  assumes "run_fresh c dk dv ops = Inr s"
  shows "batch_evict_size s = min 3 (max_size s - soft_promotion s) \<and>
         max_size s = c \<and> soft_promotion s = c div 2 \<and> 0 < batch_evict_size s \<and>
         (\<exists>s' victims.
            make_room_for_insert s = Inr s' \<and>
            (if length (free_nodes s) + nr_unevicted s < max_size s
             then length victims = batch_evict_size s
             else victims = [] \<and> s' = s) \<and>
            lru s = lru s' @ victims \<and>
            free_nodes s' = victims @ free_nodes s \<and>
            index s' = filter (\<lambda>n. n \<notin> set victims) (index s) \<and>
            set victims \<inter> set (index s') = {} \<and>
            set victims \<inter> set (unevicted_list s) = {} \<and>
            unevicted_list s' = unevicted_list s \<and>
            nr_unevicted s' = nr_unevicted s \<and>
            node_pool s' = node_pool s \<and>
            current_time s' = current_time s)"
proof -
  from assms have w: "wf s" by (rule wf_run_fresh)
  from assms have m: "max_size s = c" by (rule max_size_run_fresh)
  from w have cfg: "batch_evict_size s = min 3 (max_size s - soft_promotion s)"
    "soft_promotion s = max_size s div 2"
    by (simp_all add: wf_def)
  from w have d: "distinct (free_nodes s @ unevicted_list s @ lru s)"
    by (simp add: wf_def)
  let ?P = "\<lambda>s' victims.
            make_room_for_insert s = Inr s' \<and>
            (if length (free_nodes s) + nr_unevicted s < max_size s
             then length victims = batch_evict_size s
             else victims = [] \<and> s' = s) \<and>
            lru s = lru s' @ victims \<and>
            free_nodes s' = victims @ free_nodes s \<and>
            index s' = filter (\<lambda>n. n \<notin> set victims) (index s) \<and>
            set victims \<inter> set (index s') = {} \<and>
            set victims \<inter> set (unevicted_list s) = {} \<and>
            unevicted_list s' = unevicted_list s \<and>
            nr_unevicted s' = nr_unevicted s \<and>
            node_pool s' = node_pool s \<and>
            current_time s' = current_time s"
  have "\<exists>s' victims. ?P s' victims"
  proof (cases "length (free_nodes s) + nr_unevicted s < max_size s")
    case True
    define victims where "victims = drop (length (lru s) - batch_evict_size s) (lru s)"
    from True wf_trigger_iff [OF w] wf_batch(2) [OF w]
    have le: "batch_evict_size s \<le> length (lru s)" by simp
    with True have mr: "make_room_for_insert s = Inr (evicted s)"
      by (simp add: make_room_evicts)
    have l: "lru s = lru (evicted s) @ victims"
      by (simp add: evicted_def Let_def victims_def)
    have len: "length victims = batch_evict_size s"
      using le by (simp add: victims_def)
    have "set victims \<subseteq> set (lru s)"
      by (auto simp: victims_def dest: in_set_dropD)
    with d have pin: "set victims \<inter> set (unevicted_list s) = {}" by auto
    have fr: "free_nodes (evicted s) = victims @ free_nodes s"
      and ix: "index (evicted s) = filter (\<lambda>n. n \<notin> set victims) (index s)"
      and same: "unevicted_list (evicted s) = unevicted_list s"
        "nr_unevicted (evicted s) = nr_unevicted s"
        "node_pool (evicted s) = node_pool s"
        "current_time (evicted s) = current_time s"
      by (simp_all add: evicted_def Let_def victims_def)
    have gone: "set victims \<inter> set (index (evicted s)) = {}"
      unfolding ix by auto
    have "?P (evicted s) victims"
      using True mr len pin fr ix same gone l by (intro conjI) simp_all
    then show ?thesis by blast
  next
    case False
    then have "?P s []" by (simp add: make_room_idle)
    then show ?thesis by blast
  qed
  with cfg m wf_batch(1) [OF w] show ?thesis by simp
qed

text \<open>The theorem at the cache of capacity 1 holding the evictable keys 1 and 2.\<close>

theorem eviction_check_witness:
  "run_fresh 1 0 0 [Insert 1 11 True, Insert 2 12 True] = Inr two_evictable \<and>
   batch_evict_size two_evictable = min 3 (max_size two_evictable - soft_promotion two_evictable) \<and>
   make_room_for_insert two_evictable =
     Inr (two_evictable\<lparr>free_nodes := [0], index := [1], lru := [1]\<rparr>)"
proof -
  have "make_room_for_insert two_evictable =
     Inr (two_evictable\<lparr>free_nodes := [0], index := [1], lru := [1]\<rparr>)"
    by (simp add: make_room_eq evicted_def two_evictable_def)
  with eviction_check [OF run_two_evictable] run_two_evictable show ?thesis
    by simp
qed

subsection \<open>C6: the touch\<close>

text \<open>
  Claim C6.  On every hit of \<open>get\<close> and every overwrite hit of \<open>insert\<close> the touched
  node's access time becomes the incremented clock, and the node is relinked at the MRU
  end with its promotion time set to the access time exactly when it is evictable and
  \<open>access_time - promotion_time\<close> exceeds the threshold; a pinned node is never moved.
  For \<open>insert\<close> the hit is the lookup made after the eviction check.
\<close>

theorem touch_on_hit:
  assumes "run_fresh c dk dv ops = Inr s"
  shows "(\<forall>n. find_in_index k s = Some n \<longrightarrow>
            (\<exists>s'. get k s = (Some (value' (node_pool s ! n)), s') \<and> touch_spec n s s')) \<and>
         (\<forall>s1 n. make_room_for_insert s = Inr s1 \<longrightarrow> find_in_index k s1 = Some n \<longrightarrow>
            (\<exists>s'. insert_lru k v e s = Inr s' \<and> touch_spec n s1 s' \<and>
                  value' (node_pool s' ! n) = v))"
proof (intro conjI allI impI)
  fix n
  assume hit: "find_in_index k s = Some n"
  from assms have w: "wf s" by (rule wf_run_fresh)
  from hit have "n \<in> set (index s)" by (simp add: find_in_index_mem)
  with w have "touch_spec n s (lru_touch n s)" by (rule touch_spec_lru_touch)
  moreover have "get k s = (Some (value' (node_pool s ! n)), lru_touch n s)"
    using hit by (simp add: get_def Let_def value_lru_touch)
  ultimately show "\<exists>s'. get k s = (Some (value' (node_pool s ! n)), s') \<and> touch_spec n s s'"
    by blast
next
  fix s1 n
  assume mr: "make_room_for_insert s = Inr s1" and hit: "find_in_index k s1 = Some n"
  let ?s2 = "s1\<lparr>node_pool := (node_pool s1)[n := (node_pool s1 ! n)\<lparr>value' := v\<rparr>]\<rparr>"
  from assms have "wf s" by (rule wf_run_fresh)
  then have w1: "wf s1" using mr by (rule wf_make_room)
  from hit have mem: "n \<in> set (index s1)" by (simp add: find_in_index_mem)
  with w1 have lt: "n < length (node_pool s1)" by (rule wf_node_bound)
  from mem have "n \<in> set (index ?s2)" by simp
  with wf_value_update [OF w1] have "touch_spec n ?s2 (lru_touch n ?s2)"
    by (rule touch_spec_lru_touch)
  with lt have t: "touch_spec n s1 (lru_touch n ?s2)"
    by (simp add: touch_spec_def)
  have val: "value' (node_pool (lru_touch n ?s2) ! n) = v"
    using lt by (simp add: value_lru_touch)
  have "insert_lru k v e s = Inr (lru_touch n ?s2)"
    using mr hit by (simp add: insert_lru_eq)
  with t val show "\<exists>s'. insert_lru k v e s = Inr s' \<and> touch_spec n s1 s' \<and>
                  value' (node_pool s' ! n) = v"
    by blast
qed

text \<open>
  The theorem at the cache of capacity 1 holding the evictable keys 1 and 2: a hit of
  \<open>get\<close> on key 1, and an overwrite of key 2.
\<close>

theorem touch_on_hit_witness:
  "run_fresh 1 0 0 [Insert 1 11 True, Insert 2 12 True] = Inr two_evictable \<and>
   find_in_index 1 two_evictable = Some 0 \<and>
   (\<exists>s'. get 1 two_evictable = (Some 11, s') \<and> touch_spec 0 two_evictable s') \<and>
   make_room_for_insert two_evictable =
     Inr (two_evictable\<lparr>free_nodes := [0], index := [1], lru := [1]\<rparr>) \<and>
   find_in_index 2 (two_evictable\<lparr>free_nodes := [0], index := [1], lru := [1]\<rparr>) = Some 1 \<and>
   (\<exists>s'. insert_lru 2 99 True two_evictable = Inr s' \<and>
         touch_spec 1 (two_evictable\<lparr>free_nodes := [0], index := [1], lru := [1]\<rparr>) s' \<and>
         value' (node_pool s' ! 1) = 99)"
proof -
  have f2: "find_in_index 2 (two_evictable\<lparr>free_nodes := [0], index := [1], lru := [1]\<rparr>)
            = Some 1"
    by (simp add: two_evictable_def find_in_index_def)
  have v: "value' (node_pool two_evictable ! 0) = 11"
    by (simp add: two_evictable_def)
  from touch_on_hit [OF run_two_evictable, of 1] two_evictable_find(1) v
  have a: "\<exists>s'. get 1 two_evictable = (Some 11, s') \<and> touch_spec 0 two_evictable s'"
    by auto
  from touch_on_hit [OF run_two_evictable, of 2 99 True] two_evictable_make_room f2
  have b: "\<exists>s'. insert_lru 2 99 True two_evictable = Inr s' \<and>
         touch_spec 1 (two_evictable\<lparr>free_nodes := [0], index := [1], lru := [1]\<rparr>) s' \<and>
         value' (node_pool s' ! 1) = 99"
    by blast
  from a b f2 run_two_evictable two_evictable_find(1) two_evictable_make_room
  show ?thesis by blast
qed

subsection \<open>C1: \<open>insert_on_missing\<close> on a present key\<close>

text \<open>
  Claim C1, as stated, fails: \<open>insert_on_missing\<close> runs the eviction check before it
  looks the key up.  In the cache of capacity 1 holding the evictable keys 1 and 2, the
  call on key 2 evicts key 1, and the call on key 1 evicts key 1 itself and then inserts
  it anew with the new value, a new timestamp and at the MRU end.
\<close>

theorem insert_on_missing_present_counterexample:
  "run_fresh 1 0 0 [Insert 1 11 True, Insert 2 12 True] = Inr two_evictable \<and>
   find_in_index 2 two_evictable = Some 1 \<and>
   insert_on_missing 2 99 two_evictable =
     Inr (two_evictable\<lparr>free_nodes := [0], index := [1], lru := [1]\<rparr>) \<and>
   insert_on_missing 2 99 two_evictable \<noteq> Inr two_evictable \<and>
   find_in_index 1 two_evictable = Some 0 \<and>
   node_pool two_evictable ! 0 =
     \<lparr>key = 1, value' = 11, access_time = 1, promotion_time = 1, evictable = True\<rparr> \<and>
   insert_on_missing 1 99 two_evictable =
     Inr (two_evictable
          \<lparr>node_pool :=
             [\<lparr>key = 1, value' = 99, access_time = 3, promotion_time = 3, evictable = True\<rparr>,
              \<lparr>key = 2, value' = 12, access_time = 2, promotion_time = 2, evictable = True\<rparr>],
           lru := [0, 1], index := [0, 1], current_time := 3\<rparr>)"
  by (simp add: run_two_evictable_Suc two_evictable_find)
     (simp add: insert_on_missing_eq make_room_eq evicted_def do_insert_eq find_in_index_def
        two_evictable_def)

text \<open>
  Claim C1, amended.  In every reachable state, for a present key whose node is not in
  the batch the eviction check removes (in particular whenever the check does not fire),
  \<open>insert_on_missing\<close> does exactly what the eviction check does: no node is written,
  the clock, the pinned list and the pinned counter are unchanged, the key stays on its
  node, and the evictable list only loses nodes behind it.  When the check does not
  fire, the whole state is unchanged.
\<close>

theorem insert_on_missing_present:
  assumes "run_fresh c dk dv ops = Inr s"
    and "find_in_index k s = Some n"
    and "length (free_nodes s) + nr_unevicted s < max_size s \<longrightarrow>
         n \<notin> set (drop (length (lru s) - batch_evict_size s) (lru s))"
  shows "insert_on_missing k v s = make_room_for_insert s \<and>
         (\<exists>s' victims. insert_on_missing k v s = Inr s' \<and>
            find_in_index k s' = Some n \<and>
            node_pool s' = node_pool s \<and> current_time s' = current_time s \<and>
            unevicted_list s' = unevicted_list s \<and> nr_unevicted s' = nr_unevicted s \<and>
            lru s = lru s' @ victims \<and> n \<notin> set victims \<and>
            (\<not> length (free_nodes s) + nr_unevicted s < max_size s \<longrightarrow> s' = s))"
proof -
  from assms(1) have w: "wf s" by (rule wf_run_fresh)
  from survives_make_room [OF w assms(2,3)]
  obtain s1 victims where mr: "make_room_for_insert s = Inr s1"
    and f: "find_in_index k s1 = Some n"
    and rest: "node_pool s1 = node_pool s" "current_time s1 = current_time s"
      "unevicted_list s1 = unevicted_list s" "nr_unevicted s1 = nr_unevicted s"
      "lru s = lru s1 @ victims" "n \<notin> set victims"
      "\<not> length (free_nodes s) + nr_unevicted s < max_size s \<longrightarrow> s1 = s"
    by blast
  from mr f have eq: "insert_on_missing k v s = Inr s1"
    by (simp add: insert_on_missing_eq)
  with mr f rest show ?thesis by auto
qed

text \<open>The theorem at key 2 of the cache of capacity 1 holding the evictable keys 1 and 2.\<close>

theorem insert_on_missing_present_witness:
  "run_fresh 1 0 0 [Insert 1 11 True, Insert 2 12 True] = Inr two_evictable \<and>
   find_in_index 2 two_evictable = Some 1 \<and>
   length (free_nodes two_evictable) + nr_unevicted two_evictable < max_size two_evictable \<and>
   1 \<notin> set (drop (length (lru two_evictable) - batch_evict_size two_evictable)
                (lru two_evictable)) \<and>
   insert_on_missing 2 99 two_evictable = make_room_for_insert two_evictable \<and>
   insert_on_missing 2 99 two_evictable =
     Inr (two_evictable\<lparr>free_nodes := [0], index := [1], lru := [1]\<rparr>)"
proof -
  have s: "length (free_nodes two_evictable) + nr_unevicted two_evictable
             < max_size two_evictable \<longrightarrow>
           1 \<notin> set (drop (length (lru two_evictable) - batch_evict_size two_evictable)
                       (lru two_evictable))"
    by (simp add: two_evictable_victims)
  from insert_on_missing_present [OF run_two_evictable two_evictable_find(2) s, of 99]
  show ?thesis
    by (simp add: run_two_evictable_Suc two_evictable_find two_evictable_trigger
        two_evictable_victims two_evictable_make_room)
qed

subsection \<open>C7: \<open>insert\<close> on a present key\<close>

text \<open>
  Claim C7, as stated, fails for the same reason: in the cache of capacity 1 holding
  the evictable keys 1 and 2, \<open>insert(1, 99, false)\<close> evicts key 1 in the eviction
  check and inserts it anew, now pinned, and the pinned counter goes from 0 to 1.
\<close>

theorem insert_present_sticky_counterexample:
  "run_fresh 1 0 0 [Insert 1 11 True, Insert 2 12 True] = Inr two_evictable \<and>
   find_in_index 1 two_evictable = Some 0 \<and>
   evictable (node_pool two_evictable ! 0) \<and>
   lru two_evictable = [1, 0] \<and> unevicted_list two_evictable = [] \<and>
   nr_unevicted two_evictable = 0 \<and>
   insert_lru 1 99 False two_evictable =
     Inr (two_evictable
          \<lparr>node_pool :=
             [\<lparr>key = 1, value' = 99, access_time = 3, promotion_time = 3, evictable = False\<rparr>,
              \<lparr>key = 2, value' = 12, access_time = 2, promotion_time = 2, evictable = True\<rparr>],
           lru := [1], index := [0, 1], current_time := 3,
           unevicted_list := [0], nr_unevicted := 1\<rparr>)"
  by (simp add: run_two_evictable_Suc two_evictable_find)
     (simp add: insert_lru_eq make_room_eq evicted_def do_insert_eq find_in_index_def
        two_evictable_def)

text \<open>
  Claim C7, amended.  In every reachable state, for a present key whose node is not in
  the batch the eviction check removes (in particular for every pinned key),
  \<open>insert(k, v, e)\<close> overwrites the value with \<open>v\<close> and touches the node, and leaves
  its \<open>evictable\<close> flag, its list membership and the pinned counter unchanged, whatever
  \<open>e\<close> is.  Concretely, after \<open>insert(1, "a", false); insert(1, "b", true)\<close> on a
  fresh cache of capacity 4, \<open>get(1)\<close> returns \<open>"b"\<close> and key 1 is on the pinned list.
\<close>

theorem insert_present_sticky:
  assumes "run_fresh c dk dv ops = Inr s"
    and "find_in_index k s = Some n"
    and "length (free_nodes s) + nr_unevicted s < max_size s \<longrightarrow>
         n \<notin> set (drop (length (lru s) - batch_evict_size s) (lru s))"
  shows "(\<exists>s'. insert_lru k v e s = Inr s' \<and>
            find_in_index k s' = Some n \<and>
            value' (node_pool s' ! n) = v \<and>
            fst (get k s') = Some v \<and>
            access_time (node_pool s' ! n) = current_time s + 1 \<and>
            evictable (node_pool s' ! n) = evictable (node_pool s ! n) \<and>
            unevicted_list s' = unevicted_list s \<and>
            (n \<in> set (lru s')) = (n \<in> set (lru s)) \<and>
            nr_unevicted s' = nr_unevicted s) \<and>
         (\<exists>s2. run_fresh 4 0 [] [Insert (1 :: 64 word) ''a'' False, Insert 1 ''b'' True] = Inr s2 \<and>
            fst (get 1 s2) = Some ''b'' \<and> on_pinned_list 1 s2 \<and> lru s2 = [])"
proof
  from assms(1) have w: "wf s" by (rule wf_run_fresh)
  from survives_make_room [OF w assms(2,3)]
  obtain s1 victims where mr: "make_room_for_insert s = Inr s1"
    and f: "find_in_index k s1 = Some n"
    and w1: "wf s1"
    and pool: "node_pool s1 = node_pool s" and ct: "current_time s1 = current_time s"
    and un: "unevicted_list s1 = unevicted_list s" and nr: "nr_unevicted s1 = nr_unevicted s"
    and l: "lru s = lru s1 @ victims" and nv: "n \<notin> set victims"
    by blast
  let ?s2 = "s1\<lparr>node_pool := (node_pool s1)[n := (node_pool s1 ! n)\<lparr>value' := v\<rparr>]\<rparr>"
  let ?s' = "lru_touch n ?s2"
  from f have mem: "n \<in> set (index s1)" by (simp add: find_in_index_mem)
  with w1 have lt: "n < length (node_pool s1)" by (rule wf_node_bound)
  from mem have "n \<in> set (index ?s2)" by simp
  with wf_value_update [OF w1] have "touch_spec n ?s2 ?s'"
    by (rule touch_spec_lru_touch)
  with lt have t: "touch_spec n s1 ?s'"
    by (simp add: touch_spec_def)
  have ins: "insert_lru k v e s = Inr ?s'"
    using mr f by (simp add: insert_lru_eq)
  have fnd: "find_in_index k ?s' = Some n" using f by simp
  have val: "value' (node_pool ?s' ! n) = v"
    using lt by (simp add: value_lru_touch)
  have gt: "fst (get k ?s') = Some v"
    using fnd val by (simp add: get_def Let_def value_lru_touch)
  from t have acc: "access_time (node_pool ?s' ! n) = current_time s + 1"
    and ev: "evictable (node_pool ?s' ! n) = evictable (node_pool s ! n)"
    and un': "unevicted_list ?s' = unevicted_list s"
    by (simp_all add: touch_spec_def ct pool un)
  have mem_lru: "(n \<in> set (lru ?s')) = (n \<in> set (lru s))"
  proof (cases "evictable (node_pool s1 ! n) \<and>
         soft_promotion s1 < unat (current_time s1 + 1 - promotion_time (node_pool s1 ! n))")
    case True
    with wf_pinned_not_evictable [OF w1, of n] mem wf_index_live [OF w1]
    have "n \<in> set (lru s1)" by auto
    moreover from t True have "lru ?s' = n # removeAll n (lru s1)"
      by (simp add: touch_spec_def)
    ultimately show ?thesis using l by simp
  next
    case False
    with t have "lru ?s' = lru s1" by (auto simp add: touch_spec_def)
    with l nv show ?thesis by simp
  qed
  have nr': "nr_unevicted ?s' = nr_unevicted s" using nr by simp
  from ins fnd val gt acc ev un' mem_lru nr'
  show "\<exists>s'. insert_lru k v e s = Inr s' \<and>
            find_in_index k s' = Some n \<and>
            value' (node_pool s' ! n) = v \<and>
            fst (get k s') = Some v \<and>
            access_time (node_pool s' ! n) = current_time s + 1 \<and>
            evictable (node_pool s' ! n) = evictable (node_pool s ! n) \<and>
            unevicted_list s' = unevicted_list s \<and>
            (n \<in> set (lru s')) = (n \<in> set (lru s)) \<and>
            nr_unevicted s' = nr_unevicted s"
    by blast
next
  show "\<exists>s2. run_fresh 4 0 [] [Insert (1 :: 64 word) ''a'' False, Insert 1 ''b'' True] = Inr s2 \<and>
            fst (get 1 s2) = Some ''b'' \<and> on_pinned_list 1 s2 \<and> lru s2 = []"
    by (simp add: eval_simps on_pinned_list_def)
qed

text \<open>The theorem at the second call of the concrete scenario.\<close>

theorem insert_present_sticky_witness:
  "run_fresh 4 0 [] [Insert 1 ''a'' False] = Inr pinned_a \<and>
   find_in_index 1 pinned_a = Some 0 \<and>
   \<not> length (free_nodes pinned_a) + nr_unevicted pinned_a < max_size pinned_a \<and>
   (\<exists>s'. insert_lru 1 ''b'' True pinned_a = Inr s' \<and>
         find_in_index 1 s' = Some 0 \<and>
         value' (node_pool s' ! 0) = ''b'' \<and>
         \<not> evictable (node_pool s' ! 0) \<and>
         unevicted_list s' = [0] \<and> 0 \<notin> set (lru s') \<and> nr_unevicted s' = 1)"
proof -
  have f: "find_in_index 1 pinned_a = Some 0"
    by (simp add: pinned_a_def find_in_index_def)
  have t: "\<not> length (free_nodes pinned_a) + nr_unevicted pinned_a < max_size pinned_a"
    by (simp add: pinned_a_def)
  then have s: "length (free_nodes pinned_a) + nr_unevicted pinned_a < max_size pinned_a \<longrightarrow>
      0 \<notin> set (drop (length (lru pinned_a) - batch_evict_size pinned_a) (lru pinned_a))"
    by simp
  have obs: "\<not> evictable (node_pool pinned_a ! 0)" "unevicted_list pinned_a = [0]"
    "lru pinned_a = []" "nr_unevicted pinned_a = 1"
    by (simp_all add: pinned_a_def)
  from insert_present_sticky [OF run_pinned_a f s, of "''b''" True]
  obtain s' where "insert_lru 1 ''b'' True pinned_a = Inr s'"
    "find_in_index 1 s' = Some 0" "value' (node_pool s' ! 0) = ''b''"
    "evictable (node_pool s' ! 0) = evictable (node_pool pinned_a ! 0)"
    "unevicted_list s' = unevicted_list pinned_a"
    "(0 \<in> set (lru s')) = (0 \<in> set (lru pinned_a))"
    "nr_unevicted s' = nr_unevicted pinned_a"
    by blast
  with obs have "insert_lru 1 ''b'' True pinned_a = Inr s' \<and>
         find_in_index 1 s' = Some 0 \<and>
         value' (node_pool s' ! 0) = ''b'' \<and>
         \<not> evictable (node_pool s' ! 0) \<and>
         unevicted_list s' = [0] \<and> 0 \<notin> set (lru s') \<and> nr_unevicted s' = 1"
    by simp
  then have "\<exists>s'. insert_lru 1 ''b'' True pinned_a = Inr s' \<and>
         find_in_index 1 s' = Some 0 \<and>
         value' (node_pool s' ! 0) = ''b'' \<and>
         \<not> evictable (node_pool s' ! 0) \<and>
         unevicted_list s' = [0] \<and> 0 \<notin> set (lru s') \<and> nr_unevicted s' = 1" ..
  with run_pinned_a f t show ?thesis by blast
qed

subsection \<open>C3: five insertions into a cache of capacity 4\<close>

text \<open>
  Claim C3, as stated, fails: after inserting the evictable keys 1 to 5 into a fresh
  cache of capacity 4, \<open>get(1)\<close> is a hit.  Before the fifth insertion four free nodes
  are left and \<open>4 < 4\<close> is false, so nothing has been evicted.
\<close>

theorem five_inserts_counterexample:
  "lookup_after 4 0 0
     [Insert 1 11 True, Insert 2 12 True, Insert 3 13 True, Insert 4 14 True, Insert 5 15 True]
     (1 :: 64 word) = Inr (Some (11 :: 64 word)) \<and>
   lookup_after 4 0 0
     [Insert 1 11 True, Insert 2 12 True, Insert 3 13 True, Insert 4 14 True, Insert 5 15 True]
     (1 :: 64 word) \<noteq> Inr (None :: 64 word option)"
  by (simp add: eval_simps)

text \<open>
  Claim C3, amended.  On a fresh cache of capacity 4, inserting the evictable keys 1 to 5
  with values \<open>v1\<close> to \<open>v5\<close> leaves all five keys resident: \<open>get(1)\<close> returns
  \<open>v1\<close>, \<open>get(5)\<close> returns \<open>v5\<close>, and so for the keys between.
\<close>

theorem five_inserts_resident:
  "lookup_after 4 dk dv
     [Insert 1 v1 True, Insert 2 v2 True, Insert 3 v3 True, Insert 4 v4 True, Insert 5 v5 True]
     (1 :: 64 word) = Inr (Some v1) \<and>
   lookup_after 4 dk dv
     [Insert 1 v1 True, Insert 2 v2 True, Insert 3 v3 True, Insert 4 v4 True, Insert 5 v5 True]
     2 = Inr (Some v2) \<and>
   lookup_after 4 dk dv
     [Insert 1 v1 True, Insert 2 v2 True, Insert 3 v3 True, Insert 4 v4 True, Insert 5 v5 True]
     3 = Inr (Some v3) \<and>
   lookup_after 4 dk dv
     [Insert 1 v1 True, Insert 2 v2 True, Insert 3 v3 True, Insert 4 v4 True, Insert 5 v5 True]
     4 = Inr (Some v4) \<and>
   lookup_after 4 dk dv
     [Insert 1 v1 True, Insert 2 v2 True, Insert 3 v3 True, Insert 4 v4 True, Insert 5 v5 True]
     5 = Inr (Some v5)"
  by (simp add: eval_simps)

subsection \<open>C2: pinned entries and the free pool\<close>

text \<open>
  Claim C2 says that after \<open>c\<close> pinned insertions every one of \<open>2 * c\<close> evictable
  insertions of distinct keys finds a free node.  The code does not do that.  With \<open>c\<close>
  pinned entries the eviction check never fires, since \<open>free_nodes + c < c\<close> is false;
  the first \<open>c\<close> evictable insertions empty the free pool, and the next one pops the
  empty stack.  This holds for every capacity and all distinct keys.
\<close>

theorem pinned_fill_exhausts_pool:
  assumes "0 < c" and "c < 2 ^ 53"
    and "length ps = c" and "length es = 2 * c"
    and "distinct (map fst (ps @ es))"
  shows "(\<exists>s. run_fresh c dk dv (insert_all False ps @ insert_all True (take c es)) = Inr s \<and>
              free_nodes s = [] \<and> nr_unevicted s = c \<and>
              \<not> length (free_nodes s) + nr_unevicted s < max_size s) \<and>
         run_fresh c dk dv (insert_all False ps @ insert_all True (take (Suc c) es))
           = Inl Free_Pool_Empty \<and>
         run_fresh c dk dv (insert_all False ps @ insert_all True es) = Inl Free_Pool_Empty"
proof -
  from assms(1,2) obtain s0 where c0: "lru_cache c dk dv = Inr s0"
    by (simp add: lru_cache_def)
  note f0 = fresh_facts [OF c0]
  from c0 have w0: "wf s0" by (rule wf_fresh)
  define es1 where "es1 = take c es"
  define x where "x = es ! c"
  define es2 where "es2 = drop (Suc c) es"
  from assms(1,4) have es: "es = es1 @ x # es2"
    unfolding es1_def x_def es2_def by (intro id_take_nth_drop) simp
  from assms(4) have len1: "length es1 = c" by (simp add: es1_def)
  have tk: "take (Suc c) es = es1 @ [x]"
    using assms(1,4) by (simp add: es1_def x_def take_Suc_conv_app_nth)
  from assms(5) have dps: "distinct (map fst ps)" and des1: "distinct (map fst es1)"
    and disj: "fst ` set ps \<inter> fst ` set es1 = {}"
    and xnew: "fst x \<notin> fst ` set ps" "fst x \<notin> fst ` set es1"
    unfolding es by auto
  have "\<exists>s'. run (insert_all False ps) s0 = Inr s' \<and> wf s' \<and>
              resident_keys s' = fst ` set ps \<union> resident_keys s0 \<and>
              length (free_nodes s') + length ps = length (free_nodes s0) \<and>
              nr_unevicted s' = nr_unevicted s0 + (if False then 0 else length ps) \<and>
              max_size s' = max_size s0"
    using w0 dps f0 assms(3) by (intro run_insert_all) simp_all
  then obtain s1 where r1: "run (insert_all False ps) s0 = Inr s1" and w1: "wf s1"
    and k1: "resident_keys s1 = fst ` set ps"
    and fr1: "length (free_nodes s1) = c" and nr1: "nr_unevicted s1 = c"
    and m1: "max_size s1 = c"
    using f0 assms(3) by auto
  have "\<exists>s'. run (insert_all True es1) s1 = Inr s' \<and> wf s' \<and>
              resident_keys s' = fst ` set es1 \<union> resident_keys s1 \<and>
              length (free_nodes s') + length es1 = length (free_nodes s1) \<and>
              nr_unevicted s' = nr_unevicted s1 + (if True then 0 else length es1) \<and>
              max_size s' = max_size s1"
    using w1 des1 disj k1 fr1 nr1 m1 len1 by (intro run_insert_all) auto
  then obtain s2 where r2: "run (insert_all True es1) s1 = Inr s2"
    and k2: "resident_keys s2 = fst ` set es1 \<union> fst ` set ps"
    and fr2: "free_nodes s2 = []" and nr2: "nr_unevicted s2 = c"
    and m2: "max_size s2 = c"
    using k1 fr1 nr1 m1 len1 by auto
  have r12: "run (insert_all False ps @ insert_all True es1) s0 = Inr s2"
    using r1 r2 by (simp add: run_append)
  obtain k v where x: "x = (k, v)" by (cases x)
  with xnew k2 have "k \<notin> resident_keys s2" by auto
  then have fail: "insert_lru k v True s2 = Inl Free_Pool_Empty"
    using fr2 nr2 m2 by (intro insert_new_key_exhausted) simp_all
  have a: "run_fresh c dk dv (insert_all False ps @ insert_all True es1) = Inr s2"
    using c0 r12 by (simp add: run_fresh_def)
  have b: "run_fresh c dk dv (insert_all False ps @ insert_all True (take (Suc c) es))
           = Inl Free_Pool_Empty"
    using c0 r1 r2 fail x
    by (simp add: run_fresh_def tk insert_all_append run_append)
  have c: "run_fresh c dk dv (insert_all False ps @ insert_all True es) = Inl Free_Pool_Empty"
    using c0 r1 r2 fail x
    by (simp add: run_fresh_def es insert_all_append run_append)
  from a b c fr2 nr2 m2 show ?thesis
    unfolding es1_def by auto
qed

text \<open>
  The theorem at capacity 1: \<open>insert(0, 10, false); insert(1, 11, true);
  insert(2, 12, true)\<close>.
\<close>

theorem pinned_fill_exhausts_pool_witness:
  "0 < (1::nat) \<and> (1::nat) < 2 ^ 53 \<and>
   length [(0 :: 64 word, 10 :: 64 word)] = 1 \<and>
   length [(1 :: 64 word, 11 :: 64 word), (2, 12)] = 2 * 1 \<and>
   distinct (map fst ([(0 :: 64 word, 10 :: 64 word)] @ [(1, 11), (2, 12)])) \<and>
   run_fresh 1 (0 :: 64 word) (0 :: 64 word)
     [Insert 0 10 False, Insert 1 11 True, Insert 2 12 True]
     = Inl Free_Pool_Empty"
proof -
  have h: "0 < (1::nat)" "(1::nat) < 2 ^ 53"
    "length [(0 :: 64 word, 10 :: 64 word)] = 1"
    "length [(1 :: 64 word, 11 :: 64 word), (2, 12)] = 2 * 1"
    "distinct (map fst ([(0 :: 64 word, 10 :: 64 word)] @ [(1, 11), (2, 12)]))"
    by simp_all
  from pinned_fill_exhausts_pool [OF h, of 0 0]
  have "run_fresh 1 (0 :: 64 word) (0 :: 64 word)
          [Insert 0 10 False, Insert 1 11 True, Insert 2 12 True]
     = Inl Free_Pool_Empty"
    by simp
  with h show ?thesis by blast
qed

subsection \<open>C10: the order of the timestamps\<close>

text \<open>
  Claim C10, as stated, fails once the 64-bit clock wraps around.  In a cache of
  capacity 1, after \<open>insert(0, 7, false)\<close> and \<open>2 ^ 64 - 1\<close> calls of \<open>get(0)\<close> the
  clock and the access time of the pinned node are 0, below the node's promotion time 1
  and below the access time assigned by the call before.
\<close>

theorem timestamps_before_wrap_counterexample:
  "run_fresh 1 0 0 (Insert 0 7 False # replicate (2 ^ 64 - 1) (Get 0)) = Inr (pinned_clock 0) \<and>
   unevicted_list (pinned_clock 0) = [0] \<and>
   promotion_time (node_pool (pinned_clock 0) ! 0) = 1 \<and>
   access_time (node_pool (pinned_clock 0) ! 0) = 0 \<and>
   \<not> timestamps_ordered (pinned_clock 0)"
proof -
  have "run_fresh (Suc 0) 0 0 ([Insert 0 7 False] @ replicate (2 ^ 64 - 1) (Get 0))
        = run (replicate (2 ^ 64 - 1) (Get 0)) (pinned_clock 1)"
    using run_pinned_clock by (rule run_fresh_append)
  also have "\<dots> = Inr (pinned_clock (1 + of_nat (2 ^ 64 - 1)))"
    by (rule gets_pinned_clock)
  also have "\<dots> = Inr (pinned_clock 0)" by (simp only: wrap_64)
  finally have "run_fresh 1 0 0 (Insert 0 7 False # replicate (2 ^ 64 - 1) (Get 0))
             = Inr (pinned_clock 0)"
    by (simp only: One_nat_def append_Cons append_Nil)
  moreover have "unevicted_list (pinned_clock 0) = [0]"
    "promotion_time (node_pool (pinned_clock 0) ! 0) = 1"
    "access_time (node_pool (pinned_clock 0) ! 0) = 0"
    "\<not> timestamps_ordered (pinned_clock 0)"
    by (simp_all add: pinned_clock_def timestamps_ordered_def)
  ultimately show ?thesis by blast
qed

text \<open>
  Claim C10, amended.  In every state reached from the constructor by fewer than
  \<open>2 ^ 64\<close> public operations, every live node satisfies
  \<open>promotion_time \<le> access_time \<le> current_time\<close>; and, as long as the number of
  operations stays below \<open>2 ^ 64\<close>, an operation never decreases the clock, and every
  access time it assigns (to a node that was not live, or whose access time changes) is
  the new clock value, strictly above the clock before the operation and so above
  every access time assigned earlier.
\<close>

theorem timestamps_before_wrap:
  assumes "run_fresh c dk dv ops = Inr s" and "length ops < 2 ^ 64"
  shows "timestamps_ordered s \<and>
         (\<forall>x s'. step x s = Inr s' \<longrightarrow> Suc (length ops) < 2 ^ 64 \<longrightarrow>
            current_time s \<le> current_time s' \<and>
            (\<forall>n\<in>live s'.
               n \<notin> live s \<or> access_time (node_pool s' ! n) \<noteq> access_time (node_pool s ! n)
               \<longrightarrow> access_time (node_pool s' ! n) = current_time s' \<and>
                   current_time s < current_time s'))"
proof -
  from assms(1) obtain s0 where c0: "lru_cache c dk dv = Inr s0" and r: "run ops s0 = Inr s"
    by (auto simp: run_fresh_def split: sum.splits)
  from c0 have w0: "wf s0" by (rule wf_fresh)
  note f0 = fresh_timestamps [OF c0]
  from assms(2) f0(2) have b0: "unat (current_time s0) + length ops < 2 ^ 64" by simp
  from timestamps_run [OF w0 f0(1) b0 r] f0(2)
  have o: "timestamps_ordered s" and ct: "unat (current_time s) \<le> length ops" by simp_all
  from w0 r have w: "wf s" by (rule wf_run)
  have "current_time s \<le> current_time s' \<and>
            (\<forall>n\<in>live s'.
               n \<notin> live s \<or> access_time (node_pool s' ! n) \<noteq> access_time (node_pool s ! n)
               \<longrightarrow> access_time (node_pool s' ! n) = current_time s' \<and>
                   current_time s < current_time s')"
    if st: "step x s = Inr s'" and b: "Suc (length ops) < 2 ^ 64" for x s'
  proof -
    from w st have sp: "stamps s s'" by (rule stamps_step)
    from ct have lt: "unat (current_time s) < Suc (length ops)" by simp
    from stamps_ordered [OF o sp lt b] have le: "current_time s \<le> current_time s'" by simp
    from word_succ_less(1) [OF lt b] have "current_time s < current_time s + 1" .
    with sp le show ?thesis unfolding stamps_def by metis
  qed
  with o show ?thesis by blast
qed

text \<open>
  The theorem at the cache of capacity 1 holding the evictable keys 1 and 2, followed by
  \<open>get(1)\<close>.
\<close>

theorem timestamps_before_wrap_witness:
  "run_fresh 1 0 0 [Insert 1 11 True, Insert 2 12 True] = Inr two_evictable \<and>
   length [Insert 1 11 True, Insert 2 12 True :: (64 word, 64 word) op] < 2 ^ 64 \<and>
   timestamps_ordered two_evictable \<and>
   step (Get 1) two_evictable =
     Inr (two_evictable
          \<lparr>node_pool :=
             [\<lparr>key = 1, value' = 11, access_time = 3, promotion_time = 3, evictable = True\<rparr>,
              \<lparr>key = 2, value' = 12, access_time = 2, promotion_time = 2, evictable = True\<rparr>],
           lru := [0, 1], current_time := 3\<rparr>) \<and>
   Suc (length [Insert 1 11 True, Insert 2 12 True :: (64 word, 64 word) op]) < 2 ^ 64 \<and>
   current_time two_evictable \<le> 3"
proof -
  let ?T = "two_evictable
          \<lparr>node_pool :=
             [\<lparr>key = 1, value' = 11, access_time = 3, promotion_time = 3, evictable = True\<rparr>,
              \<lparr>key = 2, value' = 12, access_time = 2, promotion_time = 2, evictable = True\<rparr>],
           lru := [0, 1], current_time := 3\<rparr>"
  have l: "length [Insert 1 11 True, Insert 2 12 True :: (64 word, 64 word) op] < 2 ^ 64"
    and l': "Suc (length [Insert 1 11 True, Insert 2 12 True :: (64 word, 64 word) op]) < 2 ^ 64"
    by simp_all
  have st: "step (Get 1) two_evictable = Inr ?T"
    by (simp add: get_def find_in_index_def lru_touch_def next_timestamp_def list_unlink_def
        Let_def two_evictable_def)
  from timestamps_before_wrap [OF run_two_evictable l]
  have o: "timestamps_ordered two_evictable"
    and "current_time two_evictable \<le> current_time ?T"
    using st l' by blast+
  then have "current_time two_evictable \<le> 3" by simp
  with run_two_evictable l l' st o show ?thesis by blast
qed

end
